theory Spec2Isabelle
  imports Complex_Main "HOL-Library.Multiset" "HOL-Library.AList" "HOL-Library.Log_Nat"
begin

section \<open>HamLearn: question bank parser, flashcard order, quiz and daily progress\<close>

text \<open>
  The development follows \<^verbatim>\<open>src/ham-learn/src/App.jsx\<close>. JavaScript strings are
  modelled as \<^typ>\<open>string\<close> (code units below 256), JavaScript objects used as
  dictionaries (\<^verbatim>\<open>Record<string, ...>\<close>) as association lists read with
  \<^const>\<open>map_of\<close> and written with \<^const>\<open>AList.update\<close>, and JavaScript numbers
  as the rationals they denote, with the binary64 rounding of each arithmetic
  operation written out where an operation is inexact. The keys of the
  dictionaries are question identifiers and date keys; a key that is a property
  name of \<^verbatim>\<open>Object.prototype\<close> (such as \<^verbatim>\<open>__proto__\<close>) is not modelled.
\<close>

subsection \<open>String primitives\<close>

text \<open>
  \<^verbatim>\<open>String.prototype.trim\<close> removes white space and line terminators from both
  ends. Below code unit 256 these are TAB, LF, VT, FF, CR, SPACE and NBSP.
\<close>

definition is_space :: "char \<Rightarrow> bool" where
  "is_space c = (c \<in> set [CHR 0x09, CHR 0x0A, CHR 0x0B, CHR 0x0C, CHR 0x0D, CHR 0x20, CHR 0xA0])"

definition trim :: "string \<Rightarrow> string" where
  "trim s = rev (dropWhile is_space (rev (dropWhile is_space s)))"

fun push_char :: "char \<Rightarrow> string list \<Rightarrow> string list" where
  "push_char c [] = [[c]]"
| "push_char c (l # ls) = (c # l) # ls"

text \<open>
  \<^verbatim>\<open>text.split(/\r?\n/)\<close>: a separator is LF, or CR immediately followed by LF; a CR
  on its own stays in the line. The result always has at least one element.
\<close>

function split_lines :: "string \<Rightarrow> string list" where
  "split_lines [] = [[]]"
| "split_lines (c # cs) =
     (if c = CHR 0x0A then [] # split_lines cs
      else if c = CHR 0x0D \<and> take 1 cs = [CHR 0x0A] then [] # split_lines (drop 1 cs)
      else push_char c (split_lines cs))"
  by pat_completeness auto
termination
  by (relation "measure length") auto

text \<open>\<^verbatim>\<open>s.split(";")\<close>: every occurrence of the delimiter separates two columns.\<close>

fun split_on :: "char \<Rightarrow> string \<Rightarrow> string list" where
  "split_on d [] = [[]]"
| "split_on d (c # cs) =
     (if c = d then [] # split_on d cs else push_char c (split_on d cs))"

text \<open>\<^verbatim>\<open>Array.prototype.findIndex\<close>: the first index whose element satisfies the
  predicate, or \<open>-1\<close>.\<close>

fun findIndex :: "('a \<Rightarrow> bool) \<Rightarrow> 'a list \<Rightarrow> int" where
  "findIndex p [] = - 1"
| "findIndex p (x # xs) =
     (if p x then 0 else (let r = findIndex p xs in if r < 0 then - 1 else r + 1))"

subsection \<open>Question records and \<^verbatim>\<open>parseCSVSemicolon\<close>\<close>

record QA =
  question_id :: string
  question_english :: string
  correct_answer_english :: string
  incorrect_answer_1_english :: string
  incorrect_answer_2_english :: string
  incorrect_answer_3_english :: string
  question_french :: string
  correct_answer_french :: string
  incorrect_answer_1_french :: string
  incorrect_answer_2_french :: string
  incorrect_answer_3_french :: string

text \<open>
  The value stored for field \<open>f\<close> of a row:
  \<^verbatim>\<open>j >= 0 ? (cols[j]?.trim() ?? "") : ""\<close> with \<^verbatim>\<open>j = mapIdx[f]\<close>.
\<close>

definition cell :: "string list \<Rightarrow> string list \<Rightarrow> string \<Rightarrow> string" where
  "cell header cols f =
     (let j = findIndex (\<lambda>h. h = f) header in
      if 0 \<le> j then (if nat j < length cols then trim (cols ! nat j) else [])
      else [])"

definition make_row :: "string list \<Rightarrow> string list \<Rightarrow> QA" where
  "make_row header cols =
     \<lparr> question_id = cell header cols ''question_id'',
       question_english = cell header cols ''question_english'',
       correct_answer_english = cell header cols ''correct_answer_english'',
       incorrect_answer_1_english = cell header cols ''incorrect_answer_1_english'',
       incorrect_answer_2_english = cell header cols ''incorrect_answer_2_english'',
       incorrect_answer_3_english = cell header cols ''incorrect_answer_3_english'',
       question_french = cell header cols ''question_french'',
       correct_answer_french = cell header cols ''correct_answer_french'',
       incorrect_answer_1_french = cell header cols ''incorrect_answer_1_french'',
       incorrect_answer_2_french = cell header cols ''incorrect_answer_2_french'',
       incorrect_answer_3_french = cell header cols ''incorrect_answer_3_french'' \<rparr>"

text \<open>The loop \<^verbatim>\<open>for (let i = 1; i < lines.length; i++)\<close> with its accumulator
  \<^verbatim>\<open>out\<close>.\<close>

function parse_rows :: "string list \<Rightarrow> string list \<Rightarrow> nat \<Rightarrow> QA list \<Rightarrow> QA list" where
  "parse_rows header lines i out =
     (if i < length lines then
        (let cols = split_on CHR '';'' (lines ! i) in
         if length cols < length header then parse_rows header lines (i + 1) out
         else (let row = make_row header cols in
               if question_id row \<noteq> [] then parse_rows header lines (i + 1) (out @ [row])
               else parse_rows header lines (i + 1) out))
      else out)"
  by pat_completeness auto
termination
  by (relation "measure (\<lambda>(header, lines, i, out). length lines - i)") auto

declare parse_rows.simps [simp del]

definition parseCSVSemicolon :: "string \<Rightarrow> QA list" where
  "parseCSVSemicolon text =
     (let lines = filter (\<lambda>l. 0 < length (trim l)) (split_lines text) in
      if length lines < 2 then []
      else (let header = map trim (split_on CHR '';'' (lines ! 0)) in
            parse_rows header lines 1 []))"

text \<open>
  The parser as the specification words it: blank lines are dropped, the first
  remaining line names the columns, every later line is split at each semicolon
  and yields one record, unless it has fewer columns than the header or its
  \<open>question_id\<close> column is empty.
\<close>

definition blank :: "string \<Rightarrow> bool" where
  "blank l = list_all is_space l"

definition field_of :: "string list \<Rightarrow> string list \<Rightarrow> string \<Rightarrow> string" where
  "field_of header cols f =
     (case map_of (zip header cols) f of None \<Rightarrow> [] | Some v \<Rightarrow> trim v)"

definition spec_row :: "string list \<Rightarrow> string list \<Rightarrow> QA" where
  "spec_row header cols =
     \<lparr> question_id = field_of header cols ''question_id'',
       question_english = field_of header cols ''question_english'',
       correct_answer_english = field_of header cols ''correct_answer_english'',
       incorrect_answer_1_english = field_of header cols ''incorrect_answer_1_english'',
       incorrect_answer_2_english = field_of header cols ''incorrect_answer_2_english'',
       incorrect_answer_3_english = field_of header cols ''incorrect_answer_3_english'',
       question_french = field_of header cols ''question_french'',
       correct_answer_french = field_of header cols ''correct_answer_french'',
       incorrect_answer_1_french = field_of header cols ''incorrect_answer_1_french'',
       incorrect_answer_2_french = field_of header cols ''incorrect_answer_2_french'',
       incorrect_answer_3_french = field_of header cols ''incorrect_answer_3_french'' \<rparr>"

definition record_of_line :: "string list \<Rightarrow> string \<Rightarrow> QA option" where
  "record_of_line header l =
     (let cols = split_on CHR '';'' l in
      if length cols < length header then None
      else if field_of header cols ''question_id'' = [] then None
      else Some (spec_row header cols))"

definition parse_spec :: "string \<Rightarrow> QA list" where
  "parse_spec text =
     (case filter (\<lambda>l. \<not> blank l) (split_lines text) of
        h # r # rest \<Rightarrow>
          List.map_filter (record_of_line (map trim (split_on CHR '';'' h))) (r # rest)
      | _ \<Rightarrow> [])"

subsection \<open>The bank in the application: import and section filter\<close>

text \<open>\<^verbatim>\<open>Toolbar.onFilePick\<close>: a parsed file replaces the bank when it holds at least
  one record.\<close>

definition onFilePick :: "string \<Rightarrow> QA list \<Rightarrow> QA list" where
  "onFilePick txt qas = (let parsed = parseCSVSemicolon txt in if length parsed \<noteq> 0 then parsed else qas)"

definition startsWith :: "string \<Rightarrow> string \<Rightarrow> bool" where
  "startsWith s p = (take (length p) s = p)"

text \<open>\<^verbatim>\<open>App.filtered\<close>: the bank restricted to a section prefix.\<close>

definition filtered :: "string \<Rightarrow> QA list \<Rightarrow> QA list" where
  "filtered sect qas =
     (if sect = [] then qas else filter (\<lambda>q. startsWith (question_id q) sect) qas)"

subsection \<open>Review state and the flashcard order\<close>

text \<open>
  \<^verbatim>\<open>hamlearn.srs\<close> maps a question identifier to \<^verbatim>\<open>{ ease, lastSeen }\<close>. The field
  \<open>lastSeen\<close> holds an ISO-8601 instant written by \<^verbatim>\<open>toISOString\<close>; it is modelled
  by the millisecond time value that \<^verbatim>\<open>new Date(lastSeen).getTime()\<close> reads back
  from it. All scores are integers far below \<open>2^53\<close>, so the arithmetic of
  \<^verbatim>\<open>score\<close> and of the comparator \<^verbatim>\<open>score(a) - score(b)\<close> is exact.
\<close>

record srs_entry =
  ease :: int
  lastSeen :: int

type_synonym srs_store = "(string \<times> srs_entry) list"

definition ease_of :: "srs_store \<Rightarrow> QA \<Rightarrow> int" where
  "ease_of store q = (case map_of store (question_id q) of None \<Rightarrow> 1 | Some s \<Rightarrow> ease s)"

definition last_of :: "srs_store \<Rightarrow> QA \<Rightarrow> int" where
  "last_of store q = (case map_of store (question_id q) of None \<Rightarrow> 0 | Some s \<Rightarrow> lastSeen s)"

definition score :: "srs_store \<Rightarrow> QA \<Rightarrow> int" where
  "score store q = ease_of store q * 1000000000 + last_of store q"

text \<open>
  \<^verbatim>\<open>[...qas].sort((a, b) => score(a) - score(b))\<close>. \<^verbatim>\<open>Array.prototype.sort\<close> is a
  stable sort (ECMAScript 2019), and a stable sort by a total preorder has exactly
  one result, the one \<^const>\<open>sort_key\<close> computes.
\<close>

definition ordered :: "srs_store \<Rightarrow> QA list \<Rightarrow> QA list" where
  "ordered store qas = (if length qas = 0 then [] else sort_key (score store) qas)"

definition review_key :: "srs_store \<Rightarrow> QA \<Rightarrow> int \<times> int" where
  "review_key store q = (ease_of store q, last_of store q)"

subsection \<open>Dates\<close>

text \<open>
  A \<^verbatim>\<open>Date\<close> is its time value, the milliseconds since the epoch in UTC. The host
  time zone is the pair of offsets of ECMAScript's \<open>LocalTZA\<close>:
  \<open>utc_offset\<close> at a UTC instant and \<open>local_offset\<close> at a local time value.
  A date key \<^verbatim>\<open>"YYYY-MM-DD"\<close> is modelled by the number of its day since the epoch.

  \<^item> \<^verbatim>\<open>todayKey()\<close> formats the \<^emph>\<open>local\<close> calendar date of the current instant;
  \<^item> \<^verbatim>\<open>new Date("YYYY-MM-DD")\<close> is midnight \<^emph>\<open>UTC\<close> of that date;
  \<^item> \<^verbatim>\<open>dt.toISOString().slice(0, 10)\<close> is the \<^emph>\<open>UTC\<close> calendar date of \<open>dt\<close>;
  \<^item> \<^verbatim>\<open>dt.setDate(dt.getDate() - 1)\<close> moves the \<^emph>\<open>local\<close> time of \<open>dt\<close> back by
    one calendar day, keeping the local time of day, and converts back to UTC.
\<close>

definition msPerDay :: int where
  "msPerDay = 86400000"

record timezone =
  utc_offset :: "int \<Rightarrow> int"
  local_offset :: "int \<Rightarrow> int"

definition LocalTime :: "timezone \<Rightarrow> int \<Rightarrow> int" where
  "LocalTime tz t = t + utc_offset tz t"

definition UTC :: "timezone \<Rightarrow> int \<Rightarrow> int" where
  "UTC tz lt = lt - local_offset tz lt"

definition Day :: "int \<Rightarrow> int" where
  "Day t = t div msPerDay"

definition todayKey :: "timezone \<Rightarrow> int \<Rightarrow> int" where
  "todayKey tz now = Day (LocalTime tz now)"

definition parse_date :: "int \<Rightarrow> int" where
  "parse_date key = key * msPerDay"

definition setDate_prev :: "timezone \<Rightarrow> int \<Rightarrow> int" where
  "setDate_prev tz dt = UTC tz (LocalTime tz dt - msPerDay)"

text \<open>A zone without daylight saving, and one in which every step of
  \<^const>\<open>setDate_prev\<close> goes back in time.\<close>

definition fixed_zone :: "int \<Rightarrow> timezone" where
  "fixed_zone off = \<lparr> utc_offset = (\<lambda>t. off), local_offset = (\<lambda>lt. off) \<rparr>"

definition steps_back :: "timezone \<Rightarrow> bool" where
  "steps_back tz = (\<forall>t. setDate_prev tz t < t)"

subsection \<open>Daily progress and \<^verbatim>\<open>bumpProgress\<close>\<close>

record day_stat =
  seen :: nat
  correct :: nat
  streak :: "nat option"

type_synonym progress_store = "(int \<times> day_stat) list"

text \<open>
  The streak loop \<^verbatim>\<open>while (true) { ... }\<close>. It is left by \<^verbatim>\<open>break\<close> only, so it
  is a partial function of the ledger and the zone.
\<close>

partial_function (option) streak_loop ::
    "timezone \<Rightarrow> progress_store \<Rightarrow> int \<Rightarrow> nat \<Rightarrow> nat option" where
  "streak_loop tz cur dt n =
     (case map_of cur (Day dt) of
        None \<Rightarrow> Some n
      | Some d \<Rightarrow> if seen d = 0 then Some n
                  else streak_loop tz cur (setDate_prev tz dt) (n + 1))"

declare streak_loop.simps [code]

definition bumpProgress ::
    "timezone \<Rightarrow> int \<Rightarrow> nat \<Rightarrow> nat \<Rightarrow> progress_store \<Rightarrow> progress_store option" where
  "bumpProgress tz now seen_inc correct_inc cur0 =
     (let key = todayKey tz now;
          day0 = (case map_of cur0 key of
                    None \<Rightarrow> \<lparr>seen = 0, correct = 0, streak = None\<rparr>
                  | Some d \<Rightarrow> d);
          day = day0\<lparr>seen := seen day0 + seen_inc, correct := correct day0 + correct_inc\<rparr>;
          cur = AList.update key day cur0
      in case streak_loop tz cur (parse_date (todayKey tz now)) 0 of
           None \<Rightarrow> None
         | Some n \<Rightarrow> Some (AList.update (todayKey tz now) (day\<lparr>streak := Some n\<rparr>) cur))"

definition seen_on :: "progress_store \<Rightarrow> int \<Rightarrow> nat" where
  "seen_on cur k = (case map_of cur k of None \<Rightarrow> 0 | Some d \<Rightarrow> seen d)"

definition correct_on :: "progress_store \<Rightarrow> int \<Rightarrow> nat" where
  "correct_on cur k = (case map_of cur k of None \<Rightarrow> 0 | Some d \<Rightarrow> correct d)"

definition streak_on :: "progress_store \<Rightarrow> int \<Rightarrow> nat option" where
  "streak_on cur k = (case map_of cur k of None \<Rightarrow> None | Some d \<Rightarrow> streak d)"

text \<open>A day counts for the streak when it has an entry with at least one item seen.\<close>

definition active :: "progress_store \<Rightarrow> int \<Rightarrow> bool" where
  "active cur k = (0 < seen_on cur k)"

subsection \<open>Persistent state and the two recording events\<close>

text \<open>
  The two \<^verbatim>\<open>localStorage\<close> entries the events read and write. Reads and writes
  are taken to succeed: \<^verbatim>\<open>loadJSON\<close> returns what \<^verbatim>\<open>saveJSON\<close> stored last, or the
  empty object.
\<close>

record storage =
  srs :: srs_store
  progress :: progress_store

datatype lang = Fr | En

type_synonym answers = "(string \<times> string) list"

definition good :: "lang \<Rightarrow> QA \<Rightarrow> string" where
  "good lg q = (if lg = Fr then correct_answer_french q else correct_answer_english q)"

text \<open>\<^verbatim>\<open>Flashcards.mark\<close>, for the card \<open>q\<close> on display.\<close>

definition mark :: "timezone \<Rightarrow> int \<Rightarrow> QA \<Rightarrow> int \<Rightarrow> storage \<Rightarrow> storage option" where
  "mark tz now q e st =
     (let cur = AList.update (question_id q) \<lparr>ease = e, lastSeen = now\<rparr> (srs st);
          st1 = st\<lparr>srs := cur\<rparr>
      in map_option (\<lambda>p. st1\<lparr>progress := p\<rparr>)
           (bumpProgress tz now 1 (if 2 \<le> e then 1 else 0) (progress st1)))"

text \<open>\<^verbatim>\<open>Quiz.submit\<close>; \<^verbatim>\<open>answers[q.question_id]\<close> is \<^verbatim>\<open>undefined\<close> for a question
  without a selected option, which equals no string.\<close>

definition count_correct :: "lang \<Rightarrow> answers \<Rightarrow> QA list \<Rightarrow> nat" where
  "count_correct lg ans picked =
     fold (\<lambda>q c. if map_of ans (question_id q) = Some (good lg q) then c + 1 else c) picked 0"

definition submit ::
    "timezone \<Rightarrow> int \<Rightarrow> lang \<Rightarrow> QA list \<Rightarrow> answers \<Rightarrow> storage \<Rightarrow> storage option" where
  "submit tz now lg picked ans st =
     (let seen_n = length picked;
          correct_n = count_correct lg ans picked
      in map_option (\<lambda>p. st\<lparr>progress := p\<rparr>) (bumpProgress tz now seen_n correct_n (progress st)))"

text \<open>\<^verbatim>\<open>Toolbar.resetProgress\<close> removes both entries.\<close>

definition resetProgress :: "storage \<Rightarrow> storage" where
  "resetProgress st = st\<lparr>srs := [], progress := []\<rparr>"

subsection \<open>Numbers\<close>

text \<open>
  A JavaScript number is an IEEE 754 binary64 value. \<open>fl x\<close> is the binary64
  value nearest to the rational \<open>x\<close>, ties to the even significand, for \<open>x\<close> in
  the normal range: \<open>expo x\<close> is \<open>\<lfloor>log\<^sub>2 x\<rfloor>\<close> and the significand has 53 bits.
  Every quantity below is a count, a ratio of counts or a small multiple of one,
  so neither overflow nor subnormal numbers arise. A division by zero yields no
  finite number (\<open>NaN\<close> or an infinity): \<^const>\<open>None\<close>.
\<close>

definition pow2 :: "int \<Rightarrow> rat" where
  "pow2 e = 2 powi e"

definition expo :: "rat \<Rightarrow> int" where
  "expo x = (if 1 \<le> x then bitlen \<lfloor>x\<rfloor> - 1 else - bitlen (\<lceil>1 / x\<rceil> - 1))"

definition round_even :: "rat \<Rightarrow> int" where
  "round_even m =
     (let f = \<lfloor>m\<rfloor>; r = m - of_int f in
      if r < 1 / 2 then f
      else if 1 / 2 < r then f + 1
      else if even f then f else f + 1)"

definition fl :: "rat \<Rightarrow> rat" where
  "fl x =
     (if x = 0 then 0
      else (let u = pow2 (expo \<bar>x\<bar> - 52) in sgn x * (of_int (round_even (\<bar>x\<bar> / u)) * u)))"

definition js_div :: "rat \<Rightarrow> rat \<Rightarrow> rat option" where
  "js_div a b = (if b = 0 then None else Some (fl (a / b)))"

definition js_mul :: "rat \<Rightarrow> rat \<Rightarrow> rat" where
  "js_mul a b = fl (a * b)"

text \<open>\<^verbatim>\<open>Math.round\<close> rounds to the nearest integer, a tie towards \<open>+\<infinity>\<close>.\<close>

definition Math_round :: "rat \<Rightarrow> int" where
  "Math_round x = \<lfloor>x + 1 / 2\<rfloor>"

definition Math_floor :: "rat \<Rightarrow> int" where
  "Math_floor x = \<lfloor>x\<rfloor>"

subsection \<open>Percentages\<close>

text \<open>\<^verbatim>\<open>total ? Math.round((correct / total) * 100) : 0\<close>, as in
  \<^verbatim>\<open>ResultsSummary\<close> and in the rows of \<^verbatim>\<open>ProgressDashboard\<close>.\<close>

definition pct :: "nat \<Rightarrow> nat \<Rightarrow> int option" where
  "pct tot n =
     (if tot \<noteq> 0
      then map_option (\<lambda>q. Math_round (js_mul q 100)) (js_div (of_nat n) (of_nat tot))
      else Some 0)"

definition ResultsSummary_pct :: "lang \<Rightarrow> QA list \<Rightarrow> answers \<Rightarrow> int option" where
  "ResultsSummary_pct lg picked ans =
     pct (length picked)
       (fold (\<lambda>q acc. acc + (if map_of ans (question_id q) = Some (good lg q) then 1 else 0))
          picked 0)"

definition history_pct :: "day_stat \<Rightarrow> int option" where
  "history_pct it = pct (seen it) (correct it)"

text \<open>The percentage of the exact quotient, rounded half up.\<close>

definition exact_pct :: "nat \<Rightarrow> nat \<Rightarrow> int" where
  "exact_pct tot n = \<lfloor>(100 * of_nat n / of_nat tot :: rat) + 1 / 2\<rfloor>"

subsection \<open>\<^verbatim>\<open>shuffle\<close> and the quiz selection\<close>

text \<open>
  \<open>rnd n\<close> is the value of the \<open>n\<close>-th call of \<^verbatim>\<open>Math.random()\<close>: a binary64
  number, at least \<open>0\<close> and less than \<open>1\<close>.
\<close>

definition is_double :: "rat \<Rightarrow> bool" where
  "is_double x = (fl x = x)"

definition random_ok :: "(nat \<Rightarrow> rat) \<Rightarrow> bool" where
  "random_ok rnd = (\<forall>n. is_double (rnd n) \<and> 0 \<le> rnd n \<and> rnd n < 1)"

text \<open>
  The loop \<^verbatim>\<open>for (let i = a.length - 1; i > 0; i--)\<close> on the copy \<open>a\<close>; the
  destructuring swap reads both cells before it writes them.
\<close>

fun shuffle_loop :: "(nat \<Rightarrow> rat) \<Rightarrow> nat \<Rightarrow> 'a list \<Rightarrow> nat \<Rightarrow> 'a list" where
  "shuffle_loop rnd n a 0 = a"
| "shuffle_loop rnd n a (Suc i') =
     (let i = Suc i';
          j = nat (Math_floor (js_mul (rnd n) (of_nat (i + 1))))
      in shuffle_loop rnd (n + 1) (a[i := a ! j, j := a ! i]) i')"

definition shuffle :: "(nat \<Rightarrow> rat) \<Rightarrow> 'a list \<Rightarrow> 'a list" where
  "shuffle rnd arr = shuffle_loop rnd 0 arr (length arr - 1)"

text \<open>
  The same function on a heap of arrays, an address being an index into the heap:
  \<^verbatim>\<open>const a = [...arr]\<close> allocates a new array, and every write of the loop goes
  to that array.
\<close>

type_synonym 'a heap = "'a list list"

definition spread :: "'a heap \<Rightarrow> nat \<Rightarrow> nat \<times> 'a heap" where
  "spread h p = (length h, h @ [h ! p])"

fun shuffle_loop_heap :: "(nat \<Rightarrow> rat) \<Rightarrow> nat \<Rightarrow> 'a heap \<Rightarrow> nat \<Rightarrow> nat \<Rightarrow> 'a heap" where
  "shuffle_loop_heap rnd n h r 0 = h"
| "shuffle_loop_heap rnd n h r (Suc i') =
     (let i = Suc i';
          j = nat (Math_floor (js_mul (rnd n) (of_nat (i + 1))));
          a = h ! r
      in shuffle_loop_heap rnd (n + 1) (h[r := a[i := a ! j, j := a ! i]]) r i')"

definition shuffle_heap :: "(nat \<Rightarrow> rat) \<Rightarrow> 'a heap \<Rightarrow> nat \<Rightarrow> nat \<times> 'a heap" where
  "shuffle_heap rnd h p =
     (case spread h p of (r, h1) \<Rightarrow> (r, shuffle_loop_heap rnd 0 h1 r (length (h1 ! r) - 1)))"

text \<open>\<^verbatim>\<open>Quiz.pick\<close>: \<^verbatim>\<open>shuffle(qas).slice(0, Math.min(nq, qas.length))\<close>.\<close>

definition pick :: "(nat \<Rightarrow> rat) \<Rightarrow> nat \<Rightarrow> QA list \<Rightarrow> QA list" where
  "pick rnd nq qas = take (min nq (length qas)) (shuffle rnd qas)"

subsection \<open>Concrete data\<close>

definition question :: "string \<Rightarrow> string \<Rightarrow> QA" where
  "question i t =
     \<lparr> question_id = i, question_english = t, correct_answer_english = [],
       incorrect_answer_1_english = [], incorrect_answer_2_english = [],
       incorrect_answer_3_english = [], question_french = [], correct_answer_french = [],
       incorrect_answer_1_french = [], incorrect_answer_2_french = [],
       incorrect_answer_3_french = [] \<rparr>"

text \<open>A file with two rows that carry the same identifier.\<close>

definition dup_text :: string where
  "dup_text = ''question_id;question_english'' @ [CHR 0x0A] @ ''B-001-001-001;first''
     @ [CHR 0x0A] @ ''B-001-001-001;second''"

text \<open>
  A file with a padded header, a blank line, both kinds of line ends, a row with
  a semicolon between double quotes, a row of one column, a row without an
  identifier and a row with an empty second column.
\<close>

definition sample_text :: string where
  "sample_text =
     '' question_id ; question_english '' @ [CHR 0x0D, CHR 0x0A]
     @ ''   '' @ [CHR 0x0A]
     @ ''B-001-001-001;'' @ [CHR 0x22] @ ''a;b'' @ [CHR 0x22] @ [CHR 0x0D, CHR 0x0A]
     @ ''only one column'' @ [CHR 0x0A]
     @ '' ;no identifier'' @ [CHR 0x0A]
     @ ''B-001-001-002;'' @ [CHR 0x0A]"

text \<open>
  Two graded cards: \<open>B-001-001-001\<close> graded 1 on 2025-02-01T00:00:00.000Z and
  \<open>B-001-001-002\<close> graded 2 on 2025-01-01T00:00:00.000Z.
\<close>

definition card_hard :: QA where
  "card_hard = question ''B-001-001-001'' ''hard''"

definition card_fair :: QA where
  "card_fair = question ''B-001-001-002'' ''fair''"

definition graded :: srs_store where
  "graded = [(''B-001-001-001'', \<lparr>ease = 1, lastSeen = 1738368000000\<rparr>),
             (''B-001-001-002'', \<lparr>ease = 2, lastSeen = 1735689600000\<rparr>)]"

text \<open>
  America/Toronto between March 2025 and March 2026: daylight time (UTC-4) ends
  on 2025-11-02 at 06:00 UTC, 02:00 local time, and standard time (UTC-5) follows.
\<close>

definition toronto :: timezone where
  "toronto = \<lparr> utc_offset = (\<lambda>t. if t < 1762063200000 then - 14400000 else - 18000000),
               local_offset = (\<lambda>lt. if lt < 1762048800000 then - 14400000 else - 18000000) \<rparr>"

text \<open>A ledger with one item seen on each of the ten days 2025-11-01 (day 20393)
  to 2025-11-10 (day 20402).\<close>

definition november :: progress_store where
  "november = map (\<lambda>k. (k, \<lparr>seen = 1, correct = 1, streak = None\<rparr>))
     [20393, 20394, 20395, 20396, 20397, 20398, 20399, 20400, 20401, 20402]"

definition utc :: timezone where
  "utc = fixed_zone 0"

text \<open>A quiz of two questions, the first answered correctly and the second not.\<close>

definition two_cards :: "QA list" where
  "two_cards = [(question ''B-001-001-001'' ''one'')\<lparr>correct_answer_french := ''oui''\<rparr>,
                (question ''B-001-001-002'' ''two'')\<lparr>correct_answer_french := ''oui''\<rparr>]"

text \<open>A bank of three questions.\<close>

definition three_cards :: "QA list" where
  "three_cards = [question ''B-001-001-001'' ''one'', question ''B-001-001-002'' ''two'',
                  question ''B-001-001-003'' ''three'']"

definition deck_heap :: "nat heap" where
  "deck_heap = [[1, 2, 3]]"

definition quiz_answers :: answers where
  "quiz_answers = [(''B-001-001-001'', ''oui''), (''B-001-001-002'', ''non'')]"

definition quiz_storage :: storage where
  "quiz_storage = \<lparr>srs = graded, progress = november\<rparr>"

section \<open>The parser\<close>

lemma findIndex_bounds: "- 1 \<le> findIndex p xs \<and> findIndex p xs < int (length xs)"
  by (induction xs) (auto simp: Let_def)

lemma cell_field_of:
  "length header \<le> length cols \<Longrightarrow> cell header cols f = field_of header cols f"
proof (induction header arbitrary: cols)
  case Nil
  then show ?case by (simp add: cell_def field_of_def)
next
  case (Cons h hs)
  then obtain c cs where cols: "cols = c # cs" and len: "length hs \<le> length cs"
    by (cases cols) auto
  show ?case
  proof (cases "h = f")
    case True
    then show ?thesis by (simp add: cell_def field_of_def cols)
  next
    case False
    have ih: "cell hs cs f = field_of hs cs f" using Cons.IH [OF len] .
    show ?thesis
    proof (cases "findIndex (\<lambda>h. h = f) hs < 0")
      case True
      with ih False show ?thesis
        by (simp add: cell_def field_of_def cols Let_def)
    next
      case False
      then have "nat (findIndex (\<lambda>h. h = f) hs + 1) = Suc (nat (findIndex (\<lambda>h. h = f) hs))"
        by simp
      with ih False \<open>h \<noteq> f\<close> show ?thesis
        by (auto simp: cell_def field_of_def cols Let_def)
    qed
  qed
qed

lemma dropWhile_all_Nil:
  "(\<forall>x\<in>set (dropWhile P l). P x) \<longleftrightarrow> dropWhile P l = []"
proof
  assume a: "\<forall>x\<in>set (dropWhile P l). P x"
  show "dropWhile P l = []"
  proof (rule ccontr)
    assume ne: "dropWhile P l \<noteq> []"
    then have "\<not> P (hd (dropWhile P l))" by (rule hd_dropWhile)
    moreover have "hd (dropWhile P l) \<in> set (dropWhile P l)"
      using ne by (rule hd_in_set)
    ultimately show False using a by blast
  qed
next
  assume e: "dropWhile P l = []"
  show "\<forall>x\<in>set (dropWhile P l). P x" unfolding e by simp
qed

lemma trim_empty_iff: "trim l = [] \<longleftrightarrow> blank l"
proof -
  have "trim l = [] \<longleftrightarrow> dropWhile is_space (rev (dropWhile is_space l)) = []"
    by (simp only: trim_def rev_is_Nil_conv)
  also have "\<dots> \<longleftrightarrow> (\<forall>x\<in>set (dropWhile is_space l). is_space x)"
    by (simp only: dropWhile_eq_Nil_conv set_rev)
  also have "\<dots> \<longleftrightarrow> dropWhile is_space l = []"
    by (rule dropWhile_all_Nil)
  also have "\<dots> \<longleftrightarrow> blank l"
    by (simp only: dropWhile_eq_Nil_conv blank_def list_all_iff)
  finally show ?thesis .
qed

lemma make_row_spec_row:
  "length header \<le> length cols \<Longrightarrow> make_row header cols = spec_row header cols"
  unfolding make_row_def spec_row_def by (simp only: cell_field_of)

lemma question_id_spec_row:
  "question_id (spec_row header cols) = field_of header cols ''question_id''"
  unfolding spec_row_def by (simp only: QA.select_convs)

lemma row_step:
  "(if length (split_on CHR '';'' l) < length header then []
    else if question_id (make_row header (split_on CHR '';'' l)) \<noteq> []
         then [make_row header (split_on CHR '';'' l)] else [])
   = (case record_of_line header l of None \<Rightarrow> [] | Some r \<Rightarrow> [r])"
proof (cases "length (split_on CHR '';'' l) < length header")
  case True
  then show ?thesis by (simp add: record_of_line_def)
next
  case False
  then have "make_row header (split_on CHR '';'' l) = spec_row header (split_on CHR '';'' l)"
    by (simp add: make_row_spec_row)
  with False show ?thesis
    by (simp add: record_of_line_def question_id_spec_row)
qed

text \<open>The loop appends to its accumulator the records of the lines from \<open>i\<close> on.\<close>

lemma parse_rows_map_filter:
  "parse_rows header lines i out = out @ List.map_filter (record_of_line header) (drop i lines)"
proof (induction header lines i out rule: parse_rows.induct)
  case (1 header lines i out)
  show ?case
  proof (cases "i < length lines")
    case False
    then show ?thesis by (subst parse_rows.simps) (simp add: List.map_filter_simps)
  next
    case True
    let ?cols = "split_on CHR '';'' (lines ! i)"
    let ?rest = "List.map_filter (record_of_line header) (drop (i + 1) lines)"
    have d: "drop i lines = lines ! i # drop (i + 1) lines"
      using True by (simp add: Cons_nth_drop_Suc)
    have mf: "List.map_filter (record_of_line header) (drop i lines)
        = (case record_of_line header (lines ! i) of None \<Rightarrow> [] | Some r \<Rightarrow> [r]) @ ?rest"
      unfolding d by (simp add: List.map_filter_simps split: option.splits)
    have step: "parse_rows header lines i out =
        out @ (if length ?cols < length header then []
               else if question_id (make_row header ?cols) \<noteq> [] then [make_row header ?cols]
               else [])
            @ ?rest"
    proof (cases "length ?cols < length header")
      case short: True
      show ?thesis
        using True short "1.IH"(1) [OF True refl short]
        by (subst parse_rows.simps) (simp add: Let_def)
    next
      case long: False
      show ?thesis
      proof (cases "question_id (make_row header ?cols) \<noteq> []")
        case keep: True
        show ?thesis
          using True long keep "1.IH"(2) [OF True refl long refl keep]
          by (subst parse_rows.simps) (simp add: Let_def)
      next
        case skip: False
        show ?thesis
          using True long skip "1.IH"(3) [OF True refl long refl skip]
          by (subst parse_rows.simps) (simp add: Let_def)
      qed
    qed
    show ?thesis unfolding step mf row_step ..
  qed
qed

lemma parse_refines: "parseCSVSemicolon text = parse_spec text"
proof -
  let ?ls = "filter (\<lambda>l. \<not> blank l) (split_lines text)"
  have f: "filter (\<lambda>l. 0 < length (trim l)) (split_lines text) = ?ls"
    by (simp add: trim_empty_iff [symmetric])
  have "(if length ?ls < 2 then []
      else parse_rows (map trim (split_on CHR '';'' (?ls ! 0))) ?ls 1 [])
    = (case ?ls of h # r # rest \<Rightarrow>
          List.map_filter (record_of_line (map trim (split_on CHR '';'' h))) (r # rest)
      | _ \<Rightarrow> [])"
  proof (cases ?ls)
    case Nil
    then show ?thesis by simp
  next
    case (Cons h t)
    then show ?thesis
      by (cases t) (simp_all add: parse_rows_map_filter List.map_filter_simps)
  qed
  then show ?thesis
    unfolding parseCSVSemicolon_def parse_spec_def f Let_def .
qed

lemma push_char_length: "ls \<noteq> [] \<Longrightarrow> length (push_char c ls) = length ls"
  by (cases ls) simp_all

lemma split_on_nonempty: "split_on d s \<noteq> []"
  by (induction s) (auto simp: neq_Nil_conv elim: push_char.elims)

lemma split_on_length: "length (split_on d s) = Suc (count_list s d)"
  by (induction s) (simp_all add: push_char_length split_on_nonempty)

text \<open>On \<^const>\<open>sample_text\<close> the parser keeps two rows; the quotes protect nothing.\<close>

lemma parse_sample:
  "parseCSVSemicolon sample_text
     = [question ''B-001-001-001'' (CHR 0x22 # ''a''), question ''B-001-001-002'' []]"
  by code_simp

text \<open>
  Claim C3. \<^verbatim>\<open>parseCSVSemicolon\<close> is one pass over the lines of the text: the
  blank lines are dropped, fewer than two remaining lines give the empty list,
  the first remaining line is the semicolon-separated header that names the
  fields, and every later line gives at most one record, namely none when it
  has fewer columns than the header or an empty \<open>question_id\<close> column, without
  any effect on the lines after it. A line is split at every semicolon: it has
  one column more than it has semicolons, so nothing quotes or escapes one.
\<close>

theorem parseCSVSemicolon_single_pass:
  "parseCSVSemicolon text = parse_spec text
   \<and> length (split_on CHR '';'' l) = Suc (count_list l CHR '';'')"
  using parse_refines split_on_length by simp

section \<open>Duplicate identifiers\<close>

lemma parse_dup_text:
  "parseCSVSemicolon dup_text
     = [question ''B-001-001-001'' ''first'', question ''B-001-001-001'' ''second'']"
  by code_simp

lemma mset_ordered: "mset (ordered store qas) = mset qas"
  by (simp add: ordered_def)

lemma length_shuffle_loop: "length (shuffle_loop rnd n a i) = length a"
  by (induction i arbitrary: n a) (simp_all add: Let_def)

lemma length_pick: "length (pick rnd nq qas) = min nq (length qas)"
  by (simp add: pick_def shuffle_def length_shuffle_loop)

lemma filtered_same_id:
  "question_id q1 = question_id q2 \<Longrightarrow>
     filtered sect [q1, q2] = [q1, q2] \<or> filtered sect [q1, q2] = []"
  by (simp add: filtered_def)

text \<open>
  Claim C7. The parser does not enforce unique identifiers: the text
  \<^const>\<open>dup_text\<close> parses to two different records with the same \<open>question_id\<close>.
  Nothing downstream rejects or merges them: the import installs the parsed bank
  whatever bank was loaded before, the flashcard order is a permutation of it for
  every review state, a section filter keeps both records or neither, and a quiz
  of two or more questions takes both.
\<close>

theorem duplicate_question_id_accepted:
  "\<exists>txt q1 q2.
      parseCSVSemicolon txt = [q1, q2] \<and> q1 \<noteq> q2 \<and> question_id q1 = question_id q2
    \<and> (\<forall>qas. onFilePick txt qas = [q1, q2])
    \<and> (\<forall>store. mset (ordered store [q1, q2]) = mset [q1, q2])
    \<and> (\<forall>sect. filtered sect [q1, q2] = [q1, q2] \<or> filtered sect [q1, q2] = [])
    \<and> (\<forall>rnd nq. length (pick rnd nq [q1, q2]) = min nq 2)"
proof -
  let ?q1 = "question ''B-001-001-001'' ''first''"
  let ?q2 = "question ''B-001-001-001'' ''second''"
  have ne: "?q1 \<noteq> ?q2" by (simp add: question_def)
  have id: "question_id ?q1 = question_id ?q2" by (simp add: question_def)
  have imp: "\<forall>qas. onFilePick dup_text qas = [?q1, ?q2]"
    by (simp add: onFilePick_def parse_dup_text)
  have ord: "\<forall>store. mset (ordered store [?q1, ?q2]) = mset [?q1, ?q2]"
    by (simp only: mset_ordered) simp
  have fil: "\<forall>sect. filtered sect [?q1, ?q2] = [?q1, ?q2] \<or> filtered sect [?q1, ?q2] = []"
    using filtered_same_id [OF id] by blast
  have pck: "\<forall>rnd nq. length (pick rnd nq [?q1, ?q2]) = min nq 2"
    by (simp add: length_pick numeral_2_eq_2)
  from parse_dup_text ne id imp ord fil pck show ?thesis by blast
qed

section \<open>The flashcard order\<close>

lemma review_key_score:
  "review_key store q = k \<Longrightarrow> score store q = fst k * 1000000000 + snd k"
  by (auto simp: review_key_def score_def)

lemma filter_review_key_score:
  "filter (\<lambda>q. review_key store q = k) xs
     = filter (\<lambda>q. review_key store q = k)
         (filter (\<lambda>q. score store q = fst k * 1000000000 + snd k) xs)"
proof -
  have "(\<lambda>q. score store q = fst k * 1000000000 + snd k \<and> review_key store q = k)
      = (\<lambda>q. review_key store q = k)"
    using review_key_score by blast
  then show ?thesis by simp
qed

text \<open>
  Claim C8. The flashcard order is stable: the questions that share a review key
  (ease rating and last-seen time) stand in the flashcard order exactly as they
  stand in the bank.
\<close>

theorem ordered_stable:
  "filter (\<lambda>q. review_key store q = k) (ordered store qas)
     = filter (\<lambda>q. review_key store q = k) qas"
proof (cases "length qas = 0")
  case True
  then show ?thesis by (simp add: ordered_def)
next
  case False
  have "filter (\<lambda>q. review_key store q = k) (sort_key (score store) qas)
      = filter (\<lambda>q. review_key store q = k)
          (filter (\<lambda>q. score store q = fst k * 1000000000 + snd k)
             (sort_key (score store) qas))"
    by (rule filter_review_key_score)
  also have "\<dots> = filter (\<lambda>q. review_key store q = k)
          (filter (\<lambda>q. score store q = fst k * 1000000000 + snd k) qas)"
    by (simp only: sort_key_stable)
  also have "\<dots> = filter (\<lambda>q. review_key store q = k) qas"
    by (rule filter_review_key_score [symmetric])
  finally show ?thesis using False by (simp add: ordered_def)
qed

text \<open>The flashcard order is ascending in the score, and a lower ease rating gives
  the lower score as long as the card was not seen \<open>10\<^sup>9\<close> ms or more after the
  other.\<close>

lemma ordered_sorted: "sorted (map (score store) (ordered store qas))"
  by (simp add: ordered_def)

lemma lower_ease_lower_score:
  assumes "ease_of store a < ease_of store b"
    and "last_of store a - last_of store b < 1000000000"
  shows "score store a < score store b"
proof -
  have "ease_of store a + 1 \<le> ease_of store b" using assms(1) by simp
  then have "(ease_of store a + 1) * 1000000000 \<le> ease_of store b * 1000000000"
    by (rule mult_right_mono) simp
  then show ?thesis using assms(2) by (simp add: score_def algebra_simps)
qed

text \<open>
  Claim C1. The ease rating is meant to be the dominant term of the sort key, but
  the weight \<open>10\<^sup>9\<close> is smaller than the range of the last-seen term, which is
  a time in milliseconds (about \<open>1.7 \<times> 10\<^sup>1\<^sup>2\<close> today): one ease level weighs
  as much as \<open>10\<^sup>9\<close> ms, about eleven and a half days. The card \<open>B-001-001-001\<close>,
  graded 1 on 2025-02-01, has the strictly lower ease and still comes after
  \<open>B-001-001-002\<close>, graded 2 a month earlier.
\<close>

theorem ordered_ease_not_dominant:
  "ease_of graded card_hard = 1 \<and> ease_of graded card_fair = 2
   \<and> score graded card_hard = 1739368000000 \<and> score graded card_fair = 1737689600000
   \<and> ordered graded [card_hard, card_fair] = [card_fair, card_hard]"
  by code_simp

section \<open>Daily progress\<close>

lemma keys_bounded_below: "\<exists>L. \<forall>dt<L. map_of cur (Day dt) = None"
proof (induction cur)
  case Nil
  show ?case by simp
next
  case (Cons kv cur)
  then obtain L where L: "\<forall>dt<L. map_of cur (Day dt) = None" by blast
  have "map_of (kv # cur) (Day dt) = None" if "dt < min L (fst kv * msPerDay)" for dt
  proof -
    have "dt < fst kv * msPerDay" using that by simp
    then have "dt div msPerDay < fst kv"
      by (simp add: msPerDay_def div_less_iff_less_mult)
    then have "Day dt \<noteq> fst kv" by (simp add: Day_def)
    moreover have "map_of cur (Day dt) = None" using L that by simp
    ultimately show ?thesis by (cases kv) auto
  qed
  then show ?case by blast
qed

text \<open>In a zone where every step goes back in time, the streak loop ends.\<close>

lemma streak_loop_returns:
  assumes bk: "steps_back tz"
  shows "\<exists>m. streak_loop tz cur dt n = Some m"
proof -
  obtain L where L: "\<forall>dt<L. map_of cur (Day dt) = None"
    using keys_bounded_below by blast
  show ?thesis
  proof (induction "nat (dt - L + 1)" arbitrary: dt n rule: less_induct)
    case less
    show ?case
    proof (cases "map_of cur (Day dt)")
      case None
      then show ?thesis by (subst streak_loop.simps) simp
    next
      case (Some d)
      show ?thesis
      proof (cases "seen d = 0")
        case True
        with Some show ?thesis by (subst streak_loop.simps) simp
      next
        case False
        have "L \<le> dt" using L Some by (metis not_le option.distinct(1))
        moreover have "setDate_prev tz dt < dt" using bk by (simp add: steps_back_def)
        ultimately have "nat (setDate_prev tz dt - L + 1) < nat (dt - L + 1)" by simp
        then obtain m where "streak_loop tz cur (setDate_prev tz dt) (n + 1) = Some m"
          using less by blast
        with Some False show ?thesis by (subst streak_loop.simps) simp
      qed
    qed
  qed
qed

lemma bumpProgress_returns:
  assumes bk: "steps_back tz"
  shows "\<exists>m. bumpProgress tz now si ci cur0 =
           Some (AList.update (todayKey tz now)
                   \<lparr>seen = seen_on cur0 (todayKey tz now) + si,
                    correct = correct_on cur0 (todayKey tz now) + ci,
                    streak = Some m\<rparr>
                   (AList.update (todayKey tz now)
                      \<lparr>seen = seen_on cur0 (todayKey tz now) + si,
                       correct = correct_on cur0 (todayKey tz now) + ci,
                       streak = streak_on cur0 (todayKey tz now)\<rparr> cur0))"
proof -
  let ?key = "todayKey tz now"
  let ?day0 = "case map_of cur0 ?key of
                 None \<Rightarrow> \<lparr>seen = 0, correct = 0, streak = None\<rparr> | Some d \<Rightarrow> d"
  let ?day = "?day0\<lparr>seen := seen ?day0 + si, correct := correct ?day0 + ci\<rparr>"
  have day: "?day = \<lparr>seen = seen_on cur0 ?key + si, correct = correct_on cur0 ?key + ci,
                     streak = streak_on cur0 ?key\<rparr>"
    by (cases "map_of cur0 ?key") (simp_all add: seen_on_def correct_on_def streak_on_def)
  obtain m where m: "streak_loop tz (AList.update ?key ?day cur0) (parse_date ?key) 0 = Some m"
    using streak_loop_returns [OF bk] by blast
  have "bumpProgress tz now si ci cur0
      = Some (AList.update ?key (?day\<lparr>streak := Some m\<rparr>) (AList.update ?key ?day cur0))"
    using m by (simp add: bumpProgress_def Let_def)
  then show ?thesis unfolding day by auto
qed

lemma bumpProgress_effect:
  assumes bk: "steps_back tz"
  shows "\<exists>cur. bumpProgress tz now si ci cur0 = Some cur
           \<and> seen_on cur (todayKey tz now) = seen_on cur0 (todayKey tz now) + si
           \<and> correct_on cur (todayKey tz now) = correct_on cur0 (todayKey tz now) + ci
           \<and> (\<forall>k. k \<noteq> todayKey tz now \<longrightarrow> map_of cur k = map_of cur0 k)"
proof -
  obtain m where "bumpProgress tz now si ci cur0 =
           Some (AList.update (todayKey tz now)
                   \<lparr>seen = seen_on cur0 (todayKey tz now) + si,
                    correct = correct_on cur0 (todayKey tz now) + ci,
                    streak = Some m\<rparr>
                   (AList.update (todayKey tz now)
                      \<lparr>seen = seen_on cur0 (todayKey tz now) + si,
                       correct = correct_on cur0 (todayKey tz now) + ci,
                       streak = streak_on cur0 (todayKey tz now)\<rparr> cur0))"
    using bumpProgress_returns [OF bk] by blast
  then show ?thesis
    by (simp add: seen_on_def correct_on_def update_conv')
qed

lemma count_correct_fold:
  "fold (\<lambda>q c. if P q then c + 1 else c) xs n = n + length (filter P xs)"
  by (induction xs arbitrary: n) simp_all

lemma count_correct_filter:
  "count_correct lg ans picked
     = length (filter (\<lambda>q. map_of ans (question_id q) = Some (good lg q)) picked)"
  by (simp add: count_correct_def count_correct_fold)

lemma fixed_zone_steps_back: "steps_back (fixed_zone off)"
  by (simp add: steps_back_def setDate_prev_def UTC_def LocalTime_def fixed_zone_def msPerDay_def)

lemma toronto_steps_back: "steps_back toronto"
  by (simp add: steps_back_def setDate_prev_def UTC_def LocalTime_def toronto_def msPerDay_def)

text \<open>
  Claim C4. In a zone where the streak loop ends, submitting a quiz adds the
  number of questions of the quiz to today's seen count and the number of its
  questions whose selected answer is the correct answer in the active language
  to today's correct count, and leaves the entry of every other date as it was.
\<close>

theorem submit_records_quiz:
  assumes "steps_back tz"
  shows "\<exists>st'. submit tz now lg picked ans st = Some st'
     \<and> seen_on (progress st') (todayKey tz now)
         = seen_on (progress st) (todayKey tz now) + length picked
     \<and> correct_on (progress st') (todayKey tz now)
         = correct_on (progress st) (todayKey tz now)
           + length (filter (\<lambda>q. map_of ans (question_id q) = Some (good lg q)) picked)
     \<and> (\<forall>k. k \<noteq> todayKey tz now \<longrightarrow> map_of (progress st') k = map_of (progress st) k)"
proof -
  obtain cur where "bumpProgress tz now (length picked) (count_correct lg ans picked) (progress st)
        = Some cur"
    and "seen_on cur (todayKey tz now) = seen_on (progress st) (todayKey tz now) + length picked"
    and "correct_on cur (todayKey tz now)
        = correct_on (progress st) (todayKey tz now) + count_correct lg ans picked"
    and "\<forall>k. k \<noteq> todayKey tz now \<longrightarrow> map_of cur k = map_of (progress st) k"
    using bumpProgress_effect [OF assms] by blast
  then show ?thesis
    by (simp add: submit_def count_correct_filter)
qed

theorem submit_records_quiz_witness:
  "steps_back utc
   \<and> (\<exists>st'. submit utc 1762786800000 Fr two_cards quiz_answers quiz_storage = Some st'
        \<and> seen_on (progress st') 20402 = 3
        \<and> correct_on (progress st') 20402 = 2
        \<and> map_of (progress st') 20401 = map_of (progress quiz_storage) 20401)"
proof -
  have bk: "steps_back utc" by (simp add: utc_def fixed_zone_steps_back)
  have key: "todayKey utc 1762786800000 = 20402" by code_simp
  have s: "seen_on (progress quiz_storage) 20402 + length two_cards = 3" by code_simp
  have c: "correct_on (progress quiz_storage) 20402
      + length (filter (\<lambda>q. map_of quiz_answers (question_id q) = Some (good Fr q)) two_cards) = 2"
    by code_simp
  obtain st' where r: "submit utc 1762786800000 Fr two_cards quiz_answers quiz_storage = Some st'"
    and s': "seen_on (progress st') (todayKey utc 1762786800000)
         = seen_on (progress quiz_storage) (todayKey utc 1762786800000) + length two_cards"
    and c': "correct_on (progress st') (todayKey utc 1762786800000)
         = correct_on (progress quiz_storage) (todayKey utc 1762786800000)
           + length (filter (\<lambda>q. map_of quiz_answers (question_id q) = Some (good Fr q)) two_cards)"
    and o: "\<forall>k. k \<noteq> todayKey utc 1762786800000
           \<longrightarrow> map_of (progress st') k = map_of (progress quiz_storage) k"
    using submit_records_quiz [OF bk, of 1762786800000 Fr two_cards quiz_answers quiz_storage]
    by blast
  have "seen_on (progress st') 20402 = 3" using s' unfolding key s .
  moreover have "correct_on (progress st') 20402 = 2" using c' unfolding key c .
  moreover have "map_of (progress st') 20401 = map_of (progress quiz_storage) 20401"
    using o unfolding key by simp
  ultimately show ?thesis using bk r by blast
qed

text \<open>
  The review state has a second writer: \<^verbatim>\<open>Toolbar.resetProgress\<close>. After it the
  entry of the card \<open>B-001-001-001\<close> is gone.
\<close>

theorem reset_clears_review_state:
  "map_of (srs quiz_storage) ''B-001-001-001'' = Some \<lparr>ease = 1, lastSeen = 1738368000000\<rparr>
   \<and> map_of (srs (resetProgress quiz_storage)) ''B-001-001-001'' = None"
  by code_simp

text \<open>
  Claim C5, with the reset added. The review state is written by flashcard
  grading and emptied by the reset, and a quiz does not touch it. In a zone where
  the streak loop ends, submitting a quiz returns with the review state it found,
  and grading the card \<open>q\<close> with ease \<open>e\<close> at time \<open>now\<close> returns with the
  entry of \<open>q\<close> set to \<open>(e, now)\<close> and the entry of every other identifier as
  it was; the reset leaves no entry.
\<close>

theorem review_state_frame:
  assumes "steps_back tz"
  shows "(\<exists>st'. submit tz now lg picked ans st = Some st' \<and> srs st' = srs st)
     \<and> (\<exists>st'. mark tz now q e st = Some st'
           \<and> map_of (srs st') (question_id q) = Some \<lparr>ease = e, lastSeen = now\<rparr>
           \<and> (\<forall>k. k \<noteq> question_id q \<longrightarrow> map_of (srs st') k = map_of (srs st) k))
     \<and> srs (resetProgress st) = []"
proof (intro conjI)
  obtain cur where "bumpProgress tz now (length picked) (count_correct lg ans picked) (progress st)
        = Some cur"
    using bumpProgress_effect [OF assms] by blast
  then show "\<exists>st'. submit tz now lg picked ans st = Some st' \<and> srs st' = srs st"
    by (simp add: submit_def)
next
  obtain cur where "bumpProgress tz now 1 (if 2 \<le> e then 1 else 0) (progress st) = Some cur"
    using bumpProgress_effect [OF assms] by blast
  then show "\<exists>st'. mark tz now q e st = Some st'
           \<and> map_of (srs st') (question_id q) = Some \<lparr>ease = e, lastSeen = now\<rparr>
           \<and> (\<forall>k. k \<noteq> question_id q \<longrightarrow> map_of (srs st') k = map_of (srs st) k)"
    by (simp add: mark_def update_conv')
next
  show "srs (resetProgress st) = []" by (simp add: resetProgress_def)
qed

theorem review_state_frame_witness:
  "steps_back utc
   \<and> (\<exists>st'. submit utc 1762786800000 Fr two_cards quiz_answers quiz_storage = Some st'
         \<and> srs st' = srs quiz_storage)
   \<and> (\<exists>st'. mark utc 1762786800000 card_fair 3 quiz_storage = Some st'
         \<and> map_of (srs st') ''B-001-001-002'' = Some \<lparr>ease = 3, lastSeen = 1762786800000\<rparr>
         \<and> map_of (srs st') ''B-001-001-001'' = map_of (srs quiz_storage) ''B-001-001-001'')
   \<and> srs (resetProgress quiz_storage) = []"
proof -
  have bk: "steps_back utc" by (simp add: utc_def fixed_zone_steps_back)
  have id: "question_id card_fair = ''B-001-001-002''" by code_simp
  note fr = review_state_frame [OF bk, of 1762786800000 Fr two_cards quiz_answers quiz_storage
        card_fair 3]
  obtain st' where r: "mark utc 1762786800000 card_fair 3 quiz_storage = Some st'"
    and e: "map_of (srs st') (question_id card_fair) = Some \<lparr>ease = 3, lastSeen = 1762786800000\<rparr>"
    and o: "\<forall>k. k \<noteq> question_id card_fair \<longrightarrow> map_of (srs st') k = map_of (srs quiz_storage) k"
    using fr by blast
  have "map_of (srs st') ''B-001-001-002'' = Some \<lparr>ease = 3, lastSeen = 1762786800000\<rparr>"
    using e unfolding id .
  moreover have "map_of (srs st') ''B-001-001-001'' = map_of (srs quiz_storage) ''B-001-001-001''"
    using o unfolding id by simp
  ultimately show ?thesis using bk r fr by blast
qed

section \<open>The streak\<close>

lemma Day_parse_date: "Day (parse_date k) = k"
  by (simp add: Day_def parse_date_def msPerDay_def)

lemma fixed_zone_prev: "setDate_prev (fixed_zone off) (parse_date k) = parse_date (k - 1)"
  by (simp add: setDate_prev_def UTC_def LocalTime_def fixed_zone_def parse_date_def
      msPerDay_def algebra_simps)

lemma day_keys_bounded_below: "\<exists>L. \<forall>k<L. map_of (cur :: progress_store) k = None"
proof (induction cur)
  case Nil
  show ?case by simp
next
  case (Cons kv cur)
  then obtain L where L: "\<forall>k<L. map_of cur k = None" by blast
  have "map_of (kv # cur) k = None" if "k < min L (fst kv)" for k
  proof -
    have "k < L" and "k \<noteq> fst kv" using that by auto
    then show ?thesis using L by (cases kv) simp
  qed
  then show ?case by blast
qed

lemma active_iff:
  "active cur k \<longleftrightarrow> (\<exists>d. map_of cur k = Some d \<and> seen d \<noteq> 0)"
  by (auto simp: active_def seen_on_def split: option.splits)

text \<open>
  In a zone without daylight saving the loop walks the calendar days one by one:
  started at day \<open>k\<close> it adds to the counter the number \<open>m\<close> of consecutive
  active days that end at \<open>k\<close>.
\<close>

lemma streak_loop_fixed_zone:
  "\<exists>m. streak_loop (fixed_zone off) cur (parse_date k) n = Some (n + m)
       \<and> (\<forall>i<m. active cur (k - int i)) \<and> \<not> active cur (k - int m)"
proof -
  obtain L where L: "\<forall>k<L. map_of cur k = None"
    using day_keys_bounded_below by blast
  show ?thesis
  proof (induction "nat (k - L + 1)" arbitrary: k n rule: less_induct)
    case less
    show ?case
    proof (cases "active cur k")
      case False
      then have "streak_loop (fixed_zone off) cur (parse_date k) n = Some n"
        by (subst streak_loop.simps) (auto simp: Day_parse_date active_iff split: option.splits)
      with False show ?thesis by (intro exI [of _ 0]) simp
    next
      case True
      then obtain d where d: "map_of cur k = Some d" "seen d \<noteq> 0"
        by (auto simp: active_iff)
      have "L \<le> k" using L d by (metis not_le option.distinct(1))
      then have "nat (k - 1 - L + 1) < nat (k - L + 1)" by simp
      then obtain m where m:
          "streak_loop (fixed_zone off) cur (parse_date (k - 1)) (n + 1) = Some (n + 1 + m)"
          "\<forall>i<m. active cur (k - 1 - int i)" "\<not> active cur (k - 1 - int m)"
        using less [of "k - 1" "n + 1"] by blast
      have run: "streak_loop (fixed_zone off) cur (parse_date k) n = Some (n + Suc m)"
        using d m(1) by (subst streak_loop.simps) (simp add: Day_parse_date fixed_zone_prev)
      have "active cur (k - int i)" if "i < Suc m" for i
      proof (cases i)
        case 0
        with True show ?thesis by simp
      next
        case (Suc j)
        with that m(2) have "active cur (k - 1 - int j)" by simp
        with Suc show ?thesis by (simp add: algebra_simps)
      qed
      moreover have "\<not> active cur (k - int (Suc m))"
        using m(3) by (simp add: algebra_simps)
      ultimately show ?thesis using run by blast
    qed
  qed
qed

lemma active_update_streak:
  "active (AList.update key (d\<lparr>streak := s\<rparr>) (AList.update key d cur)) k
     = active (AList.update key d cur) k"
  by (simp add: active_def seen_on_def update_conv')

lemma bumpProgress_fixed_zone:
  "\<exists>cur m. bumpProgress (fixed_zone off) now si ci cur0 = Some cur
       \<and> streak_on cur (todayKey (fixed_zone off) now) = Some m
       \<and> (\<forall>i<m. active cur (todayKey (fixed_zone off) now - int i))
       \<and> \<not> active cur (todayKey (fixed_zone off) now - int m)"
proof -
  let ?tz = "fixed_zone off"
  let ?key = "todayKey ?tz now"
  let ?day0 = "case map_of cur0 ?key of
                 None \<Rightarrow> \<lparr>seen = 0, correct = 0, streak = None\<rparr> | Some d \<Rightarrow> d"
  let ?day = "?day0\<lparr>seen := seen ?day0 + si, correct := correct ?day0 + ci\<rparr>"
  let ?cur = "AList.update ?key ?day cur0"
  obtain m where m: "streak_loop ?tz ?cur (parse_date ?key) 0 = Some (0 + m)"
      "\<forall>i<m. active ?cur (?key - int i)" "\<not> active ?cur (?key - int m)"
    using streak_loop_fixed_zone [of off ?cur ?key 0] by blast
  let ?res = "AList.update ?key (?day\<lparr>streak := Some m\<rparr>) ?cur"
  have "bumpProgress ?tz now si ci cur0 = Some ?res"
    using m(1) by (simp add: bumpProgress_def Let_def)
  moreover have "streak_on ?res ?key = Some m"
    by (simp add: streak_on_def update_conv')
  moreover have "\<forall>i<m. active ?res (?key - int i)"
    unfolding active_update_streak by (rule m(2))
  moreover have "\<not> active ?res (?key - int m)"
    unfolding active_update_streak by (rule m(3))
  ultimately show ?thesis by blast
qed

text \<open>
  Claim C2. After a recording event the streak stored under today's date should
  be the number of consecutive calendar days, ending today, that have an entry
  with at least one item seen. The loop starts from midnight UTC of today's date,
  reads the date of each step in UTC, but steps back in local time. Where the
  local UTC offset is constant this is the day-by-day walk (lemma
  \<open>bumpProgress_fixed_zone\<close>). Where daylight saving ended between two steps,
  the step across the change lands at 23:00 UTC two dates earlier, and the date
  in between is never looked at. In Toronto on 2025-11-10 at 10:00 local time,
  with an item seen on each of the ten days from 2025-11-01 to 2025-11-10 and
  none on 2025-10-31, one more graded flashcard stores the streak 9: the loop
  reads 2025-11-10 down to 2025-11-03, then 2025-11-01, and skips 2025-11-02.
  With the offset of standard time throughout, the same event stores 10.
\<close>

theorem streak_skips_day_after_dst_end:
  "todayKey toronto 1762786800000 = 20402
   \<and> map_option (\<lambda>st. map (active (progress st))
          [20392, 20393, 20394, 20395, 20396, 20397, 20398, 20399, 20400, 20401, 20402])
        (mark toronto 1762786800000 card_fair 2 quiz_storage)
      = Some [False, True, True, True, True, True, True, True, True, True, True]
   \<and> map_option (\<lambda>st. streak_on (progress st) 20402)
        (mark toronto 1762786800000 card_fair 2 quiz_storage)
      = Some (Some 9)
   \<and> map_option (\<lambda>st. streak_on (progress st) 20402)
        (mark (fixed_zone (- 18000000)) 1762786800000 card_fair 2 quiz_storage)
      = Some (Some 10)"
  by code_simp

section \<open>Binary64 rounding\<close>

lemma pow2_pos: "0 < pow2 e"
  by (simp add: pow2_def)

lemma pow2_add: "pow2 (a + b) = pow2 a * pow2 b"
  by (simp add: pow2_def power_int_add)

lemma pow2_nat: "0 \<le> e \<Longrightarrow> pow2 e = 2 ^ nat e"
  by (simp add: pow2_def power_int_nonneg_exp)

lemma pow2_minus: "pow2 (- e) = 1 / pow2 e"
  by (simp add: pow2_def power_int_minus_divide)

lemma pow2_mono: "a \<le> b \<Longrightarrow> pow2 a \<le> pow2 b"
  by (simp add: pow2_def power_int_increasing)

lemma pow2_less_imp: "pow2 a < pow2 b \<Longrightarrow> a < b"
  using pow2_mono [of b a] by (cases "a < b") auto

lemma bitlen_pos: "0 < k \<Longrightarrow> 1 \<le> bitlen k"
  using bitlen_eq_zero_iff [of k] bitlen_nonneg [of k] by linarith

text \<open>\<open>expo x\<close> is the binary exponent of a positive \<open>x\<close>.\<close>

lemma expo_bounds:
  assumes "0 < x"
  shows "pow2 (expo x) \<le> x \<and> x < pow2 (expo x + 1)"
proof (cases "1 \<le> x")
  case True
  let ?n = "\<lfloor>x\<rfloor>"
  have n: "0 < ?n" using True by simp
  have b: "1 \<le> bitlen ?n" using n by (rule bitlen_pos)
  have lo: "2 ^ nat (bitlen ?n - 1) \<le> ?n" and hi: "?n < 2 ^ nat (bitlen ?n)"
    using bitlen_bounds [OF n] by simp_all
  have e: "expo x = bitlen ?n - 1" using True by (simp add: expo_def)
  have "pow2 (bitlen ?n - 1) = of_int (2 ^ nat (bitlen ?n - 1))"
    using b by (simp add: pow2_nat)
  also have "\<dots> \<le> of_int ?n" using lo by (simp only: of_int_le_iff)
  also have "\<dots> \<le> x" by simp
  finally have 1: "pow2 (expo x) \<le> x" unfolding e .
  have "?n + 1 \<le> 2 ^ nat (bitlen ?n)" using hi by simp
  then have c1: "(of_int (?n + 1) :: rat) \<le> of_int (2 ^ nat (bitlen ?n))"
    by (simp only: of_int_le_iff)
  have pn: "pow2 (bitlen ?n - 1 + 1) = of_int (2 ^ nat (bitlen ?n))"
    using b by (simp add: pow2_nat)
  have "x < of_int (?n + 1)" using floor_correct [of x] by simp
  also note c1
  finally have 2: "x < pow2 (expo x + 1)" unfolding e pn .
  from 1 2 show ?thesis ..
next
  case False
  let ?y = "1 / x"
  let ?k = "\<lceil>?y\<rceil> - 1"
  have y: "1 < ?y" using False assms by simp
  have "1 < \<lceil>?y\<rceil>" using y by (simp add: less_ceiling_iff)
  then have k: "0 < ?k" by simp
  have b: "1 \<le> bitlen ?k" using k by (rule bitlen_pos)
  have lo: "2 ^ nat (bitlen ?k - 1) \<le> ?k" and hi: "?k < 2 ^ nat (bitlen ?k)"
    using bitlen_bounds [OF k] by simp_all
  have e: "expo x = - bitlen ?k" using False by (simp add: expo_def)
  have pb: "pow2 (bitlen ?k) = of_int (2 ^ nat (bitlen ?k))"
    using b by (simp add: pow2_nat)
  have "?k + 1 \<le> 2 ^ nat (bitlen ?k)" using hi by simp
  then have c2: "(of_int (?k + 1) :: rat) \<le> of_int (2 ^ nat (bitlen ?k))"
    by (simp only: of_int_le_iff)
  have "?y \<le> of_int (?k + 1)" using ceiling_correct [of ?y] by simp
  also note c2
  finally have "?y \<le> pow2 (bitlen ?k)" unfolding pb .
  then have "1 / pow2 (bitlen ?k) \<le> 1 / ?y"
    using y assms by (intro divide_left_mono) (simp_all add: pow2_pos)
  then have 1: "pow2 (expo x) \<le> x" unfolding e pow2_minus using assms by simp
  have pb1: "pow2 (bitlen ?k - 1) = of_int (2 ^ nat (bitlen ?k - 1))"
    using b by (simp add: pow2_nat)
  have "(of_int (2 ^ nat (bitlen ?k - 1)) :: rat) \<le> of_int ?k"
    using lo by (simp only: of_int_le_iff)
  also have "of_int ?k < ?y" using ceiling_correct [of ?y] by simp
  finally have "pow2 (bitlen ?k - 1) < ?y" unfolding pb1 .
  then have "1 / ?y < 1 / pow2 (bitlen ?k - 1)"
    using assms by (intro divide_strict_left_mono) (simp_all add: pow2_pos)
  moreover have "- bitlen ?k + 1 = - (bitlen ?k - 1)" by simp
  ultimately have 2: "x < pow2 (expo x + 1)"
    unfolding e using assms by (simp only: pow2_minus) simp
  from 1 2 show ?thesis ..
qed

lemma round_even_le: "m < of_int k + 1 / 2 \<Longrightarrow> round_even m \<le> k"
proof -
  assume a: "m < of_int k + 1 / 2"
  have f: "of_int \<lfloor>m\<rfloor> \<le> m" by simp
  have "\<lfloor>m\<rfloor> \<le> k"
  proof -
    have "m < of_int (k + 1)" using a by simp
    then have "\<lfloor>m\<rfloor> < k + 1" by (simp only: floor_less_iff)
    then show ?thesis by simp
  qed
  moreover have "\<lfloor>m\<rfloor> + 1 \<le> k" if "1 / 2 \<le> m - of_int \<lfloor>m\<rfloor>"
  proof -
    have "(of_int \<lfloor>m\<rfloor> :: rat) < of_int k" using a that by linarith
    then have "\<lfloor>m\<rfloor> < k" by (simp only: of_int_less_iff)
    then show ?thesis by simp
  qed
  ultimately show ?thesis
    by (auto simp: round_even_def Let_def not_less)
qed

lemma round_even_ge: "of_int k - 1 / 2 < m \<Longrightarrow> k \<le> round_even m"
proof -
  assume a: "of_int k - 1 / 2 < m"
  have f: "m < of_int \<lfloor>m\<rfloor> + 1" using floor_correct [of m] by simp
  have "k \<le> \<lfloor>m\<rfloor> + 1"
  proof -
    have "(of_int k :: rat) < of_int (\<lfloor>m\<rfloor> + 2)" using a f by simp
    then have "k < \<lfloor>m\<rfloor> + 2" by (simp only: of_int_less_iff)
    then show ?thesis by simp
  qed
  moreover have "k \<le> \<lfloor>m\<rfloor>" if "m - of_int \<lfloor>m\<rfloor> \<le> 1 / 2"
  proof -
    have "(of_int k :: rat) < of_int (\<lfloor>m\<rfloor> + 1)" using a that by simp
    then have "k < \<lfloor>m\<rfloor> + 1" by (simp only: of_int_less_iff)
    then show ?thesis by simp
  qed
  ultimately show ?thesis
    by (auto simp: round_even_def Let_def not_less)
qed

lemma fl_pos: "0 < x \<Longrightarrow> fl x = of_int (round_even (x / pow2 (expo x - 52))) * pow2 (expo x - 52)"
  by (simp add: fl_def Let_def)

text \<open>
  \<^verbatim>\<open>Math.floor(Math.random() * (i + 1))\<close> is an index from \<open>0\<close> to \<open>i\<close>: the
  rounding of the product never reaches \<open>i + 1\<close>.
\<close>

lemma draw_in_range:
  fixes n :: nat
  assumes r0: "0 \<le> r" and r1: "r \<le> 1 - 1 / 2 ^ 53" and n0: "0 < n" and n1: "n < 2 ^ 53"
  shows "0 \<le> Math_floor (js_mul r (of_nat n)) \<and> Math_floor (js_mul r (of_nat n)) < int n"
proof (cases "r = 0")
  case True
  then show ?thesis using n0 by (simp add: js_mul_def fl_def Math_floor_def)
next
  case False
  define x where "x = r * of_nat n"
  define e where "e = expo x"
  define u where "u = pow2 (e - 52)"
  define d where "d = nat (52 - e)"
  define m where "m = x / u"
  define N where "N = int n * 2 ^ d"
  have xpos: "0 < x" using False r0 n0 by (simp add: x_def)
  have upos: "0 < u" by (simp add: u_def pow2_pos)
  have eb: "pow2 e \<le> x" using expo_bounds [OF xpos] by (simp add: e_def)
  have rn: "x \<le> of_nat n * (1 - 1 / 2 ^ 53)"
    using r1 n0 by (simp add: x_def mult.commute mult_left_mono)
  have xn: "x < of_nat n"
  proof -
    have "of_nat n * (1 - 1 / 2 ^ 53) < (of_nat n :: rat) * 1"
      using n0 by (intro mult_strict_left_mono) simp_all
    with rn show ?thesis by simp
  qed
  have "(of_nat n :: rat) < of_nat (2 ^ 53)" using n1 by (simp only: of_nat_less_iff)
  then have "(of_nat n :: rat) < pow2 53" by (simp add: pow2_def)
  with eb xn have "pow2 e < pow2 53" by linarith
  then have e53: "e < 53" by (rule pow2_less_imp)
  have ud: "u * 2 ^ d = 1"
  proof -
    have "pow2 (e - 52) * pow2 (52 - e) = pow2 0" by (simp flip: pow2_add)
    moreover have "pow2 (52 - e) = 2 ^ d" using e53 by (simp add: d_def pow2_nat)
    ultimately show ?thesis by (simp add: u_def pow2_def)
  qed
  then have inv_u: "1 / u = 2 ^ d" using upos by (simp add: field_simps)
  have "x / u = x * (1 / u)" by simp
  then have m: "m = x * 2 ^ d" unfolding inv_u m_def .
  have N: "(of_int N :: rat) = of_nat n * 2 ^ d" by (simp add: N_def)
  have e52: "pow2 e * 2 ^ d = 2 ^ 52"
  proof -
    have "pow2 e * pow2 (52 - e) = pow2 52" by (simp flip: pow2_add)
    moreover have "pow2 (52 - e) = 2 ^ d" using e53 by (simp add: d_def pow2_nat)
    ultimately show ?thesis by (simp add: pow2_def)
  qed
  have dpos: "(0 :: rat) < 2 ^ d" by simp
  have big: "2 ^ 52 < (of_int N :: rat)"
  proof -
    have "pow2 e * 2 ^ d < of_nat n * 2 ^ d"
      using eb xn dpos by (intro mult_strict_right_mono) linarith+
    then show ?thesis by (simp only: e52 N)
  qed
  have "m \<le> of_nat n * (1 - 1 / 2 ^ 53) * 2 ^ d"
    unfolding m using rn dpos by (intro mult_right_mono) simp_all
  also have "\<dots> = of_int N - of_int N / 2 ^ 53"
    by (simp add: N algebra_simps)
  also have "\<dots> < of_int N - 1 / 2" using big by simp
  finally have "m < of_int (N - 1) + 1 / 2" by simp
  then have up: "round_even m \<le> N - 1" by (rule round_even_le)
  have "0 < m" using xpos upos by (simp add: m_def)
  then have "of_int 0 - 1 / 2 < m" by simp
  then have lo: "0 \<le> round_even m" by (rule round_even_ge)
  have flx: "fl x = of_int (round_even m) * u"
    using fl_pos [OF xpos] by (simp add: m_def u_def e_def)
  have "fl x \<le> of_int (N - 1) * u"
    unfolding flx using up upos by (intro mult_right_mono) (simp_all only: of_int_le_iff less_imp_le)
  also have "\<dots> = of_nat n - u"
  proof -
    have "of_int N * u = of_nat n * (u * 2 ^ d)" by (simp add: N)
    then show ?thesis by (simp add: ud algebra_simps)
  qed
  also have "\<dots> < of_nat n" using upos by simp
  finally have "fl x < of_int (int n)" by simp
  then have 1: "\<lfloor>fl x\<rfloor> < int n" by (simp only: floor_less_iff)
  have "0 \<le> fl x" unfolding flx using lo upos by simp
  then have 2: "0 \<le> \<lfloor>fl x\<rfloor>" by simp
  from 1 2 show ?thesis by (simp add: js_mul_def Math_floor_def x_def)
qed

text \<open>The largest binary64 number below \<open>1\<close> is \<open>1 - 2\<^sup>-\<^sup>5\<^sup>3\<close>.\<close>

lemma double_below_one:
  assumes d: "is_double r" and r0: "0 \<le> r" and r1: "r < 1"
  shows "r \<le> 1 - 1 / 2 ^ 53"
proof (cases "r = 0")
  case True
  then show ?thesis by simp
next
  case False
  then have rpos: "0 < r" using r0 by simp
  define e where "e = expo r"
  have eb: "pow2 e \<le> r" "r < pow2 (e + 1)"
    using expo_bounds [OF rpos] by (simp_all add: e_def)
  have "pow2 e < pow2 0" using eb(1) r1 by (simp add: pow2_def)
  then have e0: "e < 0" by (rule pow2_less_imp)
  show ?thesis
  proof (cases "e = - 1")
    case True
    define k where "k = round_even (r / pow2 (e - 52))"
    have u: "pow2 (e - 52) = 1 / 2 ^ 53" using True by (simp add: pow2_def power_int_minus_divide)
    have "r = of_int k * pow2 (e - 52)"
      using fl_pos [OF rpos] d by (simp add: k_def e_def is_double_def)
    then have rk: "r = of_int k / 2 ^ 53" unfolding u by simp
    then have "(of_int k :: rat) < of_int (2 ^ 53)" using r1 by simp
    then have "k < 2 ^ 53" by (simp only: of_int_less_iff)
    then have "k \<le> 2 ^ 53 - 1" by simp
    then have "(of_int k :: rat) \<le> of_int (2 ^ 53 - 1)" by (simp only: of_int_le_iff)
    then have "(of_int k :: rat) / 2 ^ 53 \<le> of_int (2 ^ 53 - 1) / 2 ^ 53"
      by (intro divide_right_mono) simp_all
    then show ?thesis unfolding rk by simp
  next
    case False
    then have "e + 1 \<le> - 1" using e0 by simp
    then have "pow2 (e + 1) \<le> pow2 (- 1)" by (rule pow2_mono)
    then have "r < 1 / 2" using eb(2) by (simp add: pow2_def)
    then show ?thesis by simp
  qed
qed

section \<open>Shuffle and the quiz selection\<close>


lemma draw_index:
  assumes "random_ok rnd" and "Suc i < length a" and "length a < 2 ^ 53"
  shows "nat (Math_floor (js_mul (rnd n) (of_nat (Suc i + 1)))) < length a"
proof -
  have d: "is_double (rnd n)" and r0: "0 \<le> rnd n" and r1: "rnd n < 1"
    using assms(1) by (simp_all add: random_ok_def)
  note r = r0 double_below_one [OF d r0 r1]
  have "Suc i + 1 < (2 :: nat) ^ 53" using assms(2,3) by simp
  then have "Math_floor (js_mul (rnd n) (of_nat (Suc i + 1))) < int (Suc i + 1)"
    using draw_in_range [OF r, of "Suc i + 1"] by simp
  then show ?thesis using assms(2) by simp
qed

lemma swap_mset:
  "i < length a \<Longrightarrow> j < length a \<Longrightarrow> mset (a[i := a ! j, j := a ! i]) = mset a"
  by (rule mset_swap)

lemma shuffle_loop_mset:
  assumes "random_ok rnd"
  shows "i \<le> length a - 1 \<Longrightarrow> length a < 2 ^ 53 \<Longrightarrow> mset (shuffle_loop rnd n a i) = mset a"
proof (induction i arbitrary: n a)
  case 0
  show ?case by simp
next
  case (Suc i)
  let ?j = "nat (Math_floor (js_mul (rnd n) (of_nat (Suc i + 1))))"
  let ?a = "a[Suc i := a ! ?j, ?j := a ! Suc i]"
  have i: "Suc i < length a" using Suc.prems(1) by simp
  have j: "?j < length a" using draw_index [OF assms i Suc.prems(2)] .
  have "mset (shuffle_loop rnd (n + 1) ?a i) = mset ?a"
    using Suc.prems by (intro Suc.IH) simp_all
  also have "\<dots> = mset a" using i j by (rule swap_mset)
  finally show ?case by (simp add: Let_def)
qed

lemma swap_map:
  "i < length a \<Longrightarrow> j < length a \<Longrightarrow>
     (map f a)[i := map f a ! j, j := map f a ! i] = map f (a[i := a ! j, j := a ! i])"
  by (simp add: map_update)

lemma shuffle_loop_map:
  assumes "random_ok rnd"
  shows "i \<le> length a - 1 \<Longrightarrow> length a < 2 ^ 53 \<Longrightarrow>
     shuffle_loop rnd n (map f a) i = map f (shuffle_loop rnd n a i)"
proof (induction i arbitrary: n a)
  case 0
  show ?case by simp
next
  case (Suc i)
  let ?j = "nat (Math_floor (js_mul (rnd n) (of_nat (Suc i + 1))))"
  let ?a = "a[Suc i := a ! ?j, ?j := a ! Suc i]"
  have i: "Suc i < length a" using Suc.prems(1) by simp
  have j: "?j < length a" using draw_index [OF assms i Suc.prems(2)] .
  have "shuffle_loop rnd n (map f a) (Suc i)
      = shuffle_loop rnd (n + 1) ((map f a)[Suc i := map f a ! ?j, ?j := map f a ! Suc i]) i"
    by (simp add: Let_def)
  also have "\<dots> = shuffle_loop rnd (n + 1) (map f ?a) i"
    by (simp only: swap_map [OF i j])
  also have "\<dots> = map f (shuffle_loop rnd (n + 1) ?a i)"
    using Suc.prems by (intro Suc.IH) simp_all
  finally show ?case by (simp add: Let_def)
qed

lemma shuffle_mset:
  "random_ok rnd \<Longrightarrow> length arr < 2 ^ 53 \<Longrightarrow> mset (shuffle rnd arr) = mset arr"
  by (simp add: shuffle_def shuffle_loop_mset)

lemma shuffle_length: "length (shuffle rnd arr) = length arr"
  by (simp add: shuffle_def length_shuffle_loop)

text \<open>The result of \<^const>\<open>shuffle\<close> reads the input at a permutation of its positions.\<close>

lemma shuffle_positions:
  assumes "random_ok rnd" and "length arr < 2 ^ 53"
  shows "shuffle rnd arr = map (\<lambda>p. arr ! p) (shuffle rnd [0..<length arr])"
proof -
  have "shuffle rnd (map (\<lambda>p. arr ! p) [0..<length arr])
      = map (\<lambda>p. arr ! p) (shuffle rnd [0..<length arr])"
    using assms by (simp add: shuffle_def shuffle_loop_map)
  then show ?thesis by (simp add: map_nth)
qed

lemma shuffle_loop_heap_eq:
  "r < length h \<Longrightarrow>
     shuffle_loop_heap rnd n h r i = h[r := shuffle_loop rnd n (h ! r) i]"
  by (induction i arbitrary: n h) (simp_all add: Let_def)

lemma shuffle_heap_eq:
  "shuffle_heap rnd h p = (length h, h @ [shuffle rnd (h ! p)])"
  by (simp add: shuffle_heap_def spread_def shuffle_loop_heap_eq shuffle_def)

lemma two_pow_32_53: "(n :: nat) < 2 ^ 32 \<Longrightarrow> n < 2 ^ 53"
  by simp

text \<open>
  Claim C9. \<^verbatim>\<open>shuffle\<close> returns a permutation of its input and does not modify
  it. For binary64 draws of \<^verbatim>\<open>Math.random()\<close> in \<open>[0, 1)\<close> and an array \<open>p\<close> of a heap
  \<open>h\<close> (an array has fewer than \<open>2\<^sup>3\<^sup>2\<close> elements), the heap after the call is
  \<open>h\<close> with one new array appended, so the input and every other array are as
  they were; the result is the new array, and it has the length of the input and
  the same elements with the same multiplicities.
\<close>

theorem shuffle_permutes_copy:
  assumes "random_ok rnd" and "p < length h" and "length (h ! p) < 2 ^ 32"
  shows "shuffle_heap rnd h p = (length h, h @ [shuffle rnd (h ! p)])
     \<and> length (shuffle rnd (h ! p)) = length (h ! p)
     \<and> mset (shuffle rnd (h ! p)) = mset (h ! p)"
proof -
  have "length (h ! p) < 2 ^ 53" using assms(3) by (rule two_pow_32_53)
  then have "mset (shuffle rnd (h ! p)) = mset (h ! p)"
    using assms(1) by (simp add: shuffle_mset)
  moreover have "length (shuffle rnd (h ! p)) = length (h ! p)"
    by (rule shuffle_length)
  ultimately show ?thesis by (simp add: shuffle_heap_eq)
qed

lemma random_ok_zero: "random_ok (\<lambda>n. 0)"
  by (simp add: random_ok_def is_double_def fl_def)

theorem shuffle_permutes_copy_witness:
  "random_ok (\<lambda>n. 0) \<and> 0 < length deck_heap \<and> length (deck_heap ! 0) < 2 ^ 32
   \<and> shuffle_heap (\<lambda>n. 0) deck_heap 0
       = (length deck_heap, deck_heap @ [shuffle (\<lambda>n. 0) (deck_heap ! 0)])
   \<and> length (shuffle (\<lambda>n. 0) (deck_heap ! 0)) = length (deck_heap ! 0)
   \<and> mset (shuffle (\<lambda>n. 0) (deck_heap ! 0)) = mset (deck_heap ! 0)
   \<and> shuffle (\<lambda>n. 0) (deck_heap ! 0) = [2, 3, 1]"
proof -
  have a: "0 < length deck_heap" by (simp add: deck_heap_def)
  have b: "length (deck_heap ! 0) < 2 ^ 32" by (simp add: deck_heap_def)
  have s: "shuffle (\<lambda>n. 0) (deck_heap ! 0) = [2, 3, 1]" by code_simp
  show ?thesis
    using random_ok_zero a b s shuffle_permutes_copy [OF random_ok_zero a b]
    by blast
qed

section \<open>Percentages\<close>

text \<open>The guard: a percentage is always a number, and it is \<open>0\<close> for a zero total.\<close>

lemma pct_zero_total: "pct 0 n = Some 0"
  by (simp add: pct_def)

lemma pct_defined: "\<exists>p. pct tot n = Some p"
  by (simp add: pct_def js_div_def)

lemma round_even_near: "\<bar>of_int (round_even m) - m\<bar> \<le> 1 / 2"
proof -
  have "of_int \<lfloor>m\<rfloor> \<le> m" "m < of_int \<lfloor>m\<rfloor> + 1"
    using floor_correct [of m] by simp_all
  then show ?thesis
    by (auto simp: round_even_def Let_def abs_le_iff not_less)
qed

lemma pow2_53: "pow2 (e - 52) / 2 = pow2 e / 2 ^ 53"
proof -
  have "pow2 e = pow2 (e - 52) * pow2 52" by (simp flip: pow2_add)
  then show ?thesis by (simp add: pow2_def)
qed

text \<open>The relative error of one rounding is at most \<open>2\<^sup>-\<^sup>5\<^sup>3\<close>.\<close>

lemma fl_error:
  assumes "0 < x"
  shows "\<bar>fl x - x\<bar> \<le> x / 2 ^ 53"
proof -
  define u where "u = pow2 (expo x - 52)"
  define m where "m = x / u"
  have upos: "0 < u" by (simp add: u_def pow2_pos)
  have x: "x = m * u" using upos by (simp add: m_def)
  have flx: "fl x = of_int (round_even m) * u"
    using fl_pos [OF assms] by (simp add: u_def m_def)
  have "fl x - x = of_int (round_even m) * u - m * u"
    by (simp only: flx x [symmetric])
  also have "\<dots> = (of_int (round_even m) - m) * u"
    by (simp add: algebra_simps)
  finally have "\<bar>fl x - x\<bar> = \<bar>of_int (round_even m) - m\<bar> * u"
    using upos by (simp add: abs_mult)
  also have "\<dots> \<le> 1 / 2 * u"
    using round_even_near [of m] upos by (intro mult_right_mono) simp_all
  also have "\<dots> = pow2 (expo x) / 2 ^ 53" using pow2_53 [of "expo x"] by (simp add: u_def)
  also have "\<dots> \<le> x / 2 ^ 53"
    using expo_bounds [OF assms] by (intro divide_right_mono) simp_all
  finally show ?thesis .
qed

text \<open>The two roundings of a percentage, for a ratio of at most one.\<close>

lemma pct_error:
  fixes q :: rat
  assumes "0 \<le> q" and "q \<le> 1"
  shows "\<bar>fl (fl q * 100) - 100 * q\<bar> \<le> 201 / 2 ^ 53"
proof (cases "q = 0")
  case True
  then show ?thesis by (simp add: fl_def)
next
  case False
  then have qpos: "0 < q" using assms(1) by simp
  have e1: "\<bar>fl q - q\<bar> \<le> q / 2 ^ 53" using qpos by (rule fl_error)
  have q53: "q / 2 ^ 53 \<le> 1 / 2 ^ 53" using assms(2) by (intro divide_right_mono) simp_all
  have "q / 2 ^ 53 < q" using qpos by simp
  with e1 have q1pos: "0 < fl q" by linarith
  have q1le: "fl q \<le> 1 + 1 / 2 ^ 53" using e1 q53 assms(2) by linarith
  have ypos: "0 < fl q * 100" using q1pos by simp
  have e2: "\<bar>fl (fl q * 100) - fl q * 100\<bar> \<le> fl q * 100 / 2 ^ 53"
    using ypos by (rule fl_error)
  have "fl q * 100 / 2 ^ 53 \<le> (1 + 1 / 2 ^ 53) * 100 / 2 ^ 53"
    using q1le by (intro divide_right_mono mult_right_mono) simp_all
  also have "\<dots> \<le> 101 / 2 ^ 53" by simp
  finally have e2': "\<bar>fl (fl q * 100) - fl q * 100\<bar> \<le> 101 / 2 ^ 53" using e2 by linarith
  have e1': "\<bar>fl q * 100 - 100 * q\<bar> \<le> 100 / 2 ^ 53" using e1 q53 by linarith
  from e1' e2' show ?thesis by linarith
qed

lemma tie_mod:
  fixes n tot :: nat
  assumes "0 < tot" and "(200 * n) mod (2 * tot) \<noteq> tot"
  shows "(200 * n + tot) mod (2 * tot) \<noteq> 0"
proof
  assume z: "(200 * n + tot) mod (2 * tot) = 0"
  let ?r = "(200 * n) mod (2 * tot)"
  have r: "?r < 2 * tot" using assms(1) by simp
  have "(?r + tot) mod (2 * tot) = 0" using z by (simp add: mod_add_left_eq)
  then have "2 * tot dvd ?r + tot" by (simp add: dvd_eq_mod_eq_0)
  then obtain c where c: "?r + tot = 2 * tot * c" by (auto simp: dvd_def)
  have "c = 1"
  proof (cases c)
    case 0
    with c assms(1) show ?thesis by simp
  next
    case (Suc c')
    have "c' = 0"
    proof (rule ccontr)
      assume "c' \<noteq> 0"
      then have "2 * tot * 2 \<le> 2 * tot * c" using Suc by simp
      with c r show False by simp
    qed
    with Suc show ?thesis by simp
  qed
  with c have "?r = tot" by simp
  with assms(2) show False by simp
qed

text \<open>
  Away from a tie the displayed percentage is the exact one: the two roundings
  move the product by less than its distance to the nearest tie.
\<close>

lemma pct_exact_off_ties:
  assumes t0: "0 < tot" and nt: "n \<le> tot" and t1: "tot < 2 ^ 32"
    and tie: "(200 * n) mod (2 * tot) \<noteq> tot"
  shows "pct tot n = Some (exact_pct tot n)"
proof -
  define q :: rat where "q = of_nat n / of_nat tot"
  define a :: int where "a = int (200 * n + tot)"
  define b :: int where "b = int (2 * tot)"
  define ib :: rat where "ib = 1 / of_int b"
  define z' where "z' = fl (fl q * 100) + 1 / 2"
  have bpos: "0 < b" using t0 by (simp add: b_def)
  have q0: "0 \<le> q" by (simp add: q_def)
  have q1: "q \<le> 1" using nt t0 by (simp add: q_def)
  have err: "\<bar>fl (fl q * 100) - 100 * q\<bar> \<le> 201 / 2 ^ 53" using q0 q1 by (rule pct_error)
  have z: "100 * q + 1 / 2 = of_int a * ib"
    using t0 by (simp add: q_def a_def b_def ib_def field_simps)
  have rne: "a mod b \<noteq> 0"
  proof -
    have "a mod b = int ((200 * n + tot) mod (2 * tot))"
      unfolding a_def b_def by (simp only: zmod_int)
    then show ?thesis using tie_mod [OF t0 tie] by simp
  qed
  have r1: "1 \<le> a mod b" using rne bpos pos_mod_sign [of b a] by linarith
  have r2: "a mod b \<le> b - 1" using bpos pos_mod_bound [of b a] by linarith
  have bib: "of_int b * ib = 1" using bpos by (simp add: ib_def)
  have ibpos: "0 < ib" using bpos by (simp add: ib_def)
  have "(of_int a :: rat) = of_int (b * (a div b) + a mod b)" by simp
  also have "\<dots> = of_int b * of_int (a div b) + of_int (a mod b)"
    by (simp only: of_int_add of_int_mult)
  finally have split: "(of_int a :: rat) = of_int b * of_int (a div b) + of_int (a mod b)" .
  have "of_int a * ib = (of_int b * of_int (a div b) + of_int (a mod b)) * ib"
    by (rule arg_cong [where f = "\<lambda>v. v * ib", OF split])
  also have "\<dots> = of_int (a div b) * (of_int b * ib) + of_int (a mod b) * ib"
    by (simp only: ring_distribs ac_simps)
  finally have dec: "100 * q + 1 / 2 = of_int (a div b) + of_int (a mod b) * ib"
    unfolding z bib by simp
  have lo: "ib \<le> of_int (a mod b) * ib"
  proof -
    have "(1 :: rat) \<le> of_int (a mod b)" using r1 by simp
    then have "1 * ib \<le> of_int (a mod b) * ib"
      using ibpos by (intro mult_right_mono) simp_all
    then show ?thesis by simp
  qed
  have hi: "of_int (a mod b) * ib \<le> 1 - ib"
  proof -
    have "(of_int (a mod b) :: rat) \<le> of_int (b - 1)" using r2 by (simp only: of_int_le_iff)
    then have "of_int (a mod b) * ib \<le> of_int (b - 1) * ib"
      using ibpos by (intro mult_right_mono) simp_all
    also have "\<dots> = of_int b * ib - ib" by (simp add: algebra_simps)
    finally show ?thesis unfolding bib .
  qed
  have small: "201 / 2 ^ 53 < ib"
  proof -
    have "b < 2 ^ 33" using t1 by (simp add: b_def)
    then have "(of_int b :: rat) < of_int (2 ^ 33)" by (simp only: of_int_less_iff)
    then have "1 / (of_int (2 ^ 33) :: rat) < 1 / of_int b"
      using bpos by (intro divide_strict_left_mono) simp_all
    moreover have "(201 :: rat) / 2 ^ 53 < 1 / of_int (2 ^ 33)" by simp
    ultimately show ?thesis unfolding ib_def by linarith
  qed
  have "of_int (a div b) \<le> z'" and "z' < of_int (a div b) + 1"
    using err dec lo hi small unfolding z'_def by linarith+
  then have fz: "\<lfloor>z'\<rfloor> = a div b" by (rule floor_unique)
  have "of_int (a div b) \<le> 100 * q + 1 / 2" and "100 * q + 1 / 2 < of_int (a div b) + 1"
    using dec lo hi ibpos by linarith+
  then have fe: "\<lfloor>100 * q + 1 / 2\<rfloor> = a div b" by (rule floor_unique)
  have "pct tot n = Some \<lfloor>z'\<rfloor>"
    using t0 by (simp add: pct_def js_div_def js_mul_def Math_round_def z'_def q_def)
  moreover have "exact_pct tot n = \<lfloor>100 * q + 1 / 2\<rfloor>"
    by (simp add: exact_pct_def q_def)
  ultimately show ?thesis using fz fe by simp
qed

text \<open>
  Claim C10. Both displayed percentages are guarded against a zero total (lemmas
  \<open>pct_zero_total\<close> and \<open>pct_defined\<close>), and for a positive total they should be
  \<open>100 * correct / total\<close> rounded to the nearest integer. Away from a tie they
  are (lemma \<open>pct_exact_off_ties\<close>). The code rounds
  \<^verbatim>\<open>(correct / total) * 100\<close>, the product of the rounded quotient, and that
  product can fall below a tie that the exact value reaches. For a day with 40
  items seen and 23 correct the exact percentage is 57.5, which rounds to 58;
  the quotient \<open>23 / 40\<close> is rounded to \<open>5179139571476070 / 2\<^sup>5\<^sup>3\<close>, its
  product with 100 to \<open>8092405580431359 / 2\<^sup>4\<^sup>7\<close>, just below 57.5 (JavaScript
  prints \<^verbatim>\<open>57.49999999999999\<close>), and the row shows 57.
\<close>

theorem history_pct_below_tie:
  "js_div 23 40 = Some (5179139571476070 / 2 ^ 53)
   \<and> js_mul (5179139571476070 / 2 ^ 53) 100 = 8092405580431359 / 2 ^ 47
   \<and> history_pct \<lparr>seen = 40, correct = 23, streak = None\<rparr> = Some 57
   \<and> exact_pct 40 23 = 58"
  by code_simp


section \<open>The quiz selection as a sample\<close>

subsection \<open>Binary64 numbers that can be drawn\<close>

text \<open>The exponent of a positive number is the only one whose binade holds it.\<close>

lemma expo_unique:
  assumes "0 < y" and "pow2 e \<le> y" and "y < pow2 (e + 1)"
  shows "expo y = e"
proof -
  have b: "pow2 (expo y) \<le> y" "y < pow2 (expo y + 1)"
    using expo_bounds [OF assms(1)] by simp_all
  have "pow2 (expo y) < pow2 (e + 1)" using b(1) assms(3) by linarith
  then have 1: "expo y < e + 1" by (rule pow2_less_imp)
  have "pow2 e < pow2 (expo y + 1)" using b(2) assms(2) by linarith
  then have 2: "e < expo y + 1" by (rule pow2_less_imp)
  from 1 2 show ?thesis by simp
qed

lemma round_even_int: "round_even (of_int k) = k"
  by (simp add: round_even_def Let_def)

lemma pow2_52: "pow2 e = 2 ^ 52 * pow2 (e - 52)"
proof -
  have "pow2 e = pow2 (52 + (e - 52))" by simp
  also have "\<dots> = pow2 52 * pow2 (e - 52)" by (rule pow2_add)
  finally show ?thesis by (simp add: pow2_def)
qed

lemma pow2_Suc: "pow2 (e + 1) = 2 * pow2 e"
proof -
  have "pow2 (e + 1) = pow2 (1 + e)" by (simp add: add.commute)
  also have "\<dots> = pow2 1 * pow2 e" by (rule pow2_add)
  finally show ?thesis by (simp add: pow2_def)
qed

text \<open>A number with a significand of 53 bits is a binary64 number.\<close>

lemma significand_is_double:
  assumes "2 ^ 52 \<le> k" and "k < 2 ^ 53"
  shows "fl (of_int k * pow2 (e - 52)) = of_int k * pow2 (e - 52)"
proof -
  define u where "u = pow2 (e - 52)"
  define y where "y = of_int k * u"
  have upos: "0 < u" by (simp add: u_def pow2_pos)
  have k1: "(2 ^ 52 :: rat) \<le> of_int k"
  proof -
    have "(of_int (2 ^ 52) :: rat) \<le> of_int k" using assms(1) by (simp only: of_int_le_iff)
    then show ?thesis by simp
  qed
  have k2: "(of_int k :: rat) < 2 ^ 53"
  proof -
    have "(of_int k :: rat) < of_int (2 ^ 53)" using assms(2) by (simp only: of_int_less_iff)
    then show ?thesis by simp
  qed
  have ypos: "0 < y" using k1 upos by (simp add: y_def)
  have lo: "pow2 e \<le> y"
  proof -
    have "2 ^ 52 * u \<le> of_int k * u" using k1 upos by (intro mult_right_mono) simp_all
    then show ?thesis unfolding y_def u_def pow2_52 [of e] .
  qed
  have hi: "y < pow2 (e + 1)"
  proof -
    have "of_int k * u < 2 ^ 53 * u" using k2 upos by (intro mult_strict_right_mono) simp_all
    moreover have "pow2 (e + 1) = 2 ^ 53 * u"
      unfolding pow2_Suc u_def by (subst pow2_52 [of e]) simp
    ultimately show ?thesis unfolding y_def by simp
  qed
  have ex: "expo y = e" using ypos lo hi by (rule expo_unique)
  have "y / u = of_int k" using upos by (simp add: y_def)
  then have "fl y = of_int (round_even (of_int k)) * u"
    using fl_pos [OF ypos] by (simp add: ex u_def)
  then show ?thesis by (simp add: round_even_int y_def u_def)
qed

lemma fl_is_double:
  assumes "0 < x"
  shows "is_double (fl x)"
proof -
  define e where "e = expo x"
  define u where "u = pow2 (e - 52)"
  define k where "k = round_even (x / u)"
  have upos: "0 < u" by (simp add: u_def pow2_pos)
  have eb: "pow2 e \<le> x" "x < pow2 (e + 1)"
    using expo_bounds [OF assms] by (simp_all add: e_def)
  have flx: "fl x = of_int k * u"
    using fl_pos [OF assms] by (simp add: k_def u_def e_def)
  have m1: "2 ^ 52 \<le> x / u"
  proof -
    have "2 ^ 52 * u \<le> x" using eb(1) unfolding u_def by (subst (asm) pow2_52 [of e])
    then show ?thesis using upos by (simp add: pos_le_divide_eq)
  qed
  have m2: "x / u < 2 ^ 53"
  proof -
    have "pow2 (e + 1) = 2 ^ 53 * u"
      unfolding pow2_Suc u_def by (subst pow2_52 [of e]) simp
    then have "x < 2 ^ 53 * u" using eb(2) by simp
    then show ?thesis using upos by (simp add: pos_divide_less_eq)
  qed
  have "(of_int (2 ^ 52) :: rat) = 2 ^ 52" by simp
  then have "of_int (2 ^ 52) - 1 / 2 < x / u" using m1 by linarith
  then have k1: "2 ^ 52 \<le> k" unfolding k_def by (rule round_even_ge)
  have "(of_int (2 ^ 53) :: rat) = 2 ^ 53" by simp
  then have "x / u < of_int (2 ^ 53) + 1 / 2" using m2 by linarith
  then have k2: "k \<le> 2 ^ 53" unfolding k_def by (rule round_even_le)
  show ?thesis
  proof (cases "k = 2 ^ 53")
    case False
    then have "k < 2 ^ 53" using k2 by simp
    then show ?thesis
      unfolding is_double_def flx u_def using k1 by (intro significand_is_double)
  next
    case True
    have "of_int k * u = of_int (2 ^ 52) * pow2 (e + 1 - 52)"
    proof -
      have "pow2 (e + 1 - 52) = 2 * u"
        using pow2_Suc [of "e - 52"] by (simp add: u_def algebra_simps)
      then show ?thesis using True by simp
    qed
    moreover have "fl (of_int (2 ^ 52) * pow2 (e + 1 - 52)) = of_int (2 ^ 52) * pow2 (e + 1 - 52)"
      by (intro significand_is_double) simp_all
    ultimately show ?thesis unfolding is_double_def flx by simp
  qed
qed


text \<open>Every index of the range can be drawn.\<close>

lemma exists_draw:
  fixes n :: nat
  assumes jn: "j < n" and n32: "n < 2 ^ 32"
  shows "\<exists>r. is_double r \<and> 0 \<le> r \<and> r < 1 \<and> nat (Math_floor (js_mul r (of_nat n))) = j"
proof -
  define N :: rat where "N = of_nat n"
  define J :: rat where "J = of_nat j"
  define x :: rat where "x = (2 * J + 1) / (2 * N)"
  define r where "r = fl x"
  define y where "y = r * N"
  have J0: "0 \<le> J" by (simp add: J_def)
  have JN: "J + 1 \<le> N"
  proof -
    have "Suc j \<le> n" using jn by simp
    then have "(of_nat (Suc j) :: rat) \<le> of_nat n" by (simp only: of_nat_le_iff)
    then show ?thesis by (simp add: J_def N_def)
  qed
  have N0: "0 < N" using J0 JN by linarith
  have N32: "N < 2 ^ 32"
  proof -
    have "(of_nat n :: rat) < of_nat (2 ^ 32)" using n32 by (simp only: of_nat_less_iff)
    then show ?thesis by (simp add: N_def)
  qed
  have xpos: "0 < x" using J0 N0 by (simp add: x_def)
  have xN: "x * N = J + 1 / 2" using N0 by (simp add: x_def field_simps)
  have x1: "x = 1 - (N - J - 1 / 2) / N" using N0 by (simp add: x_def field_simps)
  have gap: "1 / 2 ^ 33 < (N - J - 1 / 2) / N"
  proof -
    have "1 / 2 \<le> N - J - 1 / 2" using JN by linarith
    then have "2 ^ 33 * (1 / 2) \<le> 2 ^ 33 * (N - J - 1 / 2)"
      by (intro mult_left_mono) simp_all
    then have "N < 2 ^ 33 * (N - J - 1 / 2)" using N32 by simp
    then show ?thesis using N0 by (simp add: pos_less_divide_eq)
  qed
  have xlt: "x < 1 - 1 / 2 ^ 33" using gap x1 by linarith
  have err: "\<bar>r - x\<bar> \<le> x / 2 ^ 53" unfolding r_def using xpos by (rule fl_error)
  have xs: "x / 2 ^ 53 < 1 / 2 ^ 53" "x / 2 ^ 53 < x"
    using xlt xpos by (simp_all add: divide_strict_right_mono)
  have rpos: "0 < r" using err xs by linarith
  have small: "(1 :: rat) / 2 ^ 53 \<le> 1 / 2 ^ 33" "(1 :: rat) / 2 ^ 21 < 1 / 4"
    "(1 / 2 ^ 53) * 2 ^ 32 = (1 :: rat) / 2 ^ 21" "2 ^ 32 / 2 ^ 53 = (1 :: rat) / 2 ^ 21"
    by simp_all
  have r1: "r < 1" using err xs(1) xlt small(1) by linarith
  have dbl: "is_double r" unfolding r_def using xpos by (rule fl_is_double)
  have ypos: "0 < y" using rpos N0 by (simp add: y_def)
  have "\<bar>y - (J + 1 / 2)\<bar> = \<bar>r - x\<bar> * N"
  proof -
    have "y - (J + 1 / 2) = (r - x) * N" by (simp add: y_def xN [symmetric] algebra_simps)
    then show ?thesis using N0 by (simp add: abs_mult)
  qed
  moreover have "\<bar>r - x\<bar> * N \<le> (1 / 2 ^ 53) * N"
    using err xs(1) N0 by (intro mult_right_mono) simp_all
  moreover have "(1 / 2 ^ 53) * N < (1 / 2 ^ 53) * 2 ^ 32"
    using N32 by (intro mult_strict_left_mono) simp_all
  ultimately have yerr: "\<bar>y - (J + 1 / 2)\<bar> < 1 / 2 ^ 21" using small(3) by linarith
  have y32: "y < 2 ^ 32" using yerr JN N32 small(2) by linarith
  have ferr: "\<bar>fl y - y\<bar> \<le> y / 2 ^ 53" using ypos by (rule fl_error)
  have "y / 2 ^ 53 < 2 ^ 32 / 2 ^ 53" using y32 by (rule divide_strict_right_mono) simp
  then have ferr': "\<bar>fl y - y\<bar> < 1 / 2 ^ 21" using ferr small(4) by linarith
  have lo: "of_int (int j) \<le> fl y"
  proof -
    have "J \<le> fl y" using ferr' yerr small(2) by linarith
    then show ?thesis by (simp add: J_def)
  qed
  have hi: "fl y < of_int (int j) + 1"
  proof -
    have "fl y < J + 1" using ferr' yerr small(2) by linarith
    then show ?thesis by (simp add: J_def)
  qed
  have "\<lfloor>fl y\<rfloor> = int j" using lo hi by (rule floor_unique)
  then have "nat (Math_floor (js_mul r (of_nat n))) = j"
    by (simp add: Math_floor_def js_mul_def y_def N_def)
  then show ?thesis using dbl rpos r1 by (intro exI [of _ r]) simp
qed


subsection \<open>Every permutation can be drawn\<close>

text \<open>The loop reads the draws from position \<open>c\<close> on only.\<close>

lemma shuffle_loop_cong:
  "(\<And>m. c \<le> m \<Longrightarrow> rnd m = rnd' m) \<Longrightarrow> shuffle_loop rnd c a i = shuffle_loop rnd' c a i"
proof (induction i arbitrary: c a)
  case 0
  show ?case by simp
next
  case (Suc i)
  have e: "rnd c = rnd' c" using Suc.prems by simp
  have "shuffle_loop rnd (c + 1) (a[Suc i := a ! j, j := a ! Suc i]) i
      = shuffle_loop rnd' (c + 1) (a[Suc i := a ! j, j := a ! Suc i]) i" for j
    by (rule Suc.IH) (simp add: Suc.prems)
  then show ?case by (simp add: Let_def e)
qed

lemma take_mset_of_drop:
  assumes "mset b = mset a" and "drop k b = drop k a"
  shows "mset (take k b) = mset (take k a)"
proof -
  have "mset (take k b @ drop k b) = mset (take k a @ drop k a)"
    using assms(1) by (simp only: append_take_drop_id)
  then have "mset (take k b) + mset (drop k a) = mset (take k a) + mset (drop k a)"
    using assms(2) by (simp only: mset_append)
  then show ?thesis by (simp only: add_right_cancel)
qed

text \<open>
  Every arrangement of the first \<open>i + 1\<close> elements is the result of the loop for
  some draws.
\<close>

lemma shuffle_loop_onto:
  "i < length a \<Longrightarrow> length a < 2 ^ 32 \<Longrightarrow> length t = length a \<Longrightarrow>
   mset (take (Suc i) t) = mset (take (Suc i) a) \<Longrightarrow> drop (Suc i) t = drop (Suc i) a \<Longrightarrow>
   \<exists>rnd. random_ok rnd \<and> shuffle_loop rnd c a i = t"
proof (induction i arbitrary: a c)
  case 0
  have "take (Suc 0) t = [t ! 0]" "take (Suc 0) a = [a ! 0]"
    using 0(1,3) by (simp_all add: take_Suc_conv_app_nth)
  then have "take (Suc 0) t = take (Suc 0) a" using 0(4) by simp
  then have "take (Suc 0) t @ drop (Suc 0) t = take (Suc 0) a @ drop (Suc 0) a"
    using 0(5) by simp
  then have "t = a" by (simp only: append_take_drop_id)
  then show ?case using random_ok_zero by (intro exI [of _ "\<lambda>n. 0"]) simp
next
  case (Suc i)
  define I where "I = Suc i"
  have Ia: "I < length a" and It: "I < length t" and a32: "length a < 2 ^ 32"
    and lt: "length t = length a"
    and mt: "mset (take (Suc I) t) = mset (take (Suc I) a)"
    and dt: "drop (Suc I) t = drop (Suc I) a"
    using Suc.prems by (simp_all add: I_def)
  have tkt: "take (Suc I) t = take I t @ [t ! I]" using It by (rule take_Suc_conv_app_nth)
  then have "t ! I \<in> set (take (Suc I) t)" by simp
  then have "t ! I \<in> set (take (Suc I) a)" using mset_eq_setD [OF mt] by simp
  then obtain j where j: "j < Suc I" "a ! j = t ! I"
    by (auto simp add: in_set_conv_nth)
  have "I + 1 < 2 ^ 32" using Ia a32 by simp
  then obtain r where r: "is_double r" "0 \<le> r" "r < 1"
      "nat (Math_floor (js_mul r (of_nat (I + 1)))) = j"
    using exists_draw [of j "I + 1"] j(1) by auto
  define a' where "a' = a[I := a ! j, j := a ! I]"
  have la': "length a' = length a" by (simp add: a'_def)
  have ja: "j < length a" using j(1) Ia by simp
  have top: "a' ! I = t ! I"
    using j Ia by (cases "j = I") (simp_all add: a'_def)
  have dr: "drop (Suc I) a' = drop (Suc I) a" using j(1) by (simp add: a'_def)
  have ms: "mset a' = mset a" unfolding a'_def using Ia ja by (rule swap_mset)
  have tka: "mset (take (Suc I) a') = mset (take (Suc I) a)"
    using ms dr by (rule take_mset_of_drop)
  have "take (Suc I) a' = take I a' @ [a' ! I]"
    using Ia la' by (intro take_Suc_conv_app_nth) simp
  then have e1: "mset (take (Suc I) a') = add_mset (t ! I) (mset (take I a'))"
    by (simp add: top)
  have e2: "mset (take (Suc I) t) = add_mset (t ! I) (mset (take I t))"
    by (simp add: tkt)
  have "add_mset (t ! I) (mset (take I t)) = add_mset (t ! I) (mset (take I a'))"
    unfolding e1 [symmetric] e2 [symmetric] tka by (rule mt)
  then have mI: "mset (take I t) = mset (take I a')" by simp
  have "t ! I # drop (Suc I) t = a' ! I # drop (Suc I) a'" using top dt dr by simp
  then have dI: "drop I t = drop I a'"
    using Cons_nth_drop_Suc [OF It] Cons_nth_drop_Suc [of I a'] Ia la' by simp
  have "\<exists>rnd. random_ok rnd \<and> shuffle_loop rnd (c + 1) a' i = t"
  proof (rule Suc.IH)
    show "i < length a'" using Ia la' by (simp add: I_def)
    show "length a' < 2 ^ 32" using a32 la' by simp
    show "length t = length a'" using lt la' by simp
    show "mset (take (Suc i) t) = mset (take (Suc i) a')" using mI by (simp only: I_def)
    show "drop (Suc i) t = drop (Suc i) a'" using dI by (simp only: I_def)
  qed
  then obtain rnd0 where rnd0: "random_ok rnd0" "shuffle_loop rnd0 (c + 1) a' i = t" by blast
  define rnd where "rnd = rnd0(c := r)"
  have ok: "random_ok rnd" using rnd0(1) r(1,2,3) by (simp add: random_ok_def rnd_def)
  have "shuffle_loop rnd c a (Suc i) = shuffle_loop rnd (c + 1) a' i"
    using r(4) by (simp add: Let_def rnd_def a'_def I_def)
  also have "\<dots> = shuffle_loop rnd0 (c + 1) a' i"
    by (rule shuffle_loop_cong) (simp add: rnd_def)
  finally show ?case using ok rnd0(2) by blast
qed

text \<open>Every permutation of the array is the result of \<^const>\<open>shuffle\<close> for some draws.\<close>

lemma shuffle_onto:
  assumes "mset t = mset a" and "length a < 2 ^ 32"
  shows "\<exists>rnd. random_ok rnd \<and> shuffle rnd a = t"
proof (cases "a = []")
  case True
  then have "t = []" using assms(1) by simp
  then show ?thesis using True random_ok_zero by (intro exI [of _ "\<lambda>n. 0"]) (simp add: shuffle_def)
next
  case False
  have lt: "length t = length a" using assms(1) by (rule mset_eq_length)
  have "\<exists>rnd. random_ok rnd \<and> shuffle_loop rnd 0 a (length a - 1) = t"
  proof (rule shuffle_loop_onto)
    show "length a - 1 < length a" using False by simp
    show "length a < 2 ^ 32" by (rule assms(2))
    show "length t = length a" by (rule lt)
    show "mset (take (Suc (length a - 1)) t) = mset (take (Suc (length a - 1)) a)"
      using assms(1) lt by simp
    show "drop (Suc (length a - 1)) t = drop (Suc (length a - 1)) a" using lt by simp
  qed
  then show ?thesis by (simp add: shuffle_def)
qed

subsection \<open>The selection\<close>

lemma random_ok_half: "random_ok (\<lambda>n. 1 / 2)"
proof -
  have "is_double (1 / 2)" by code_simp
  then show ?thesis by (simp add: random_ok_def)
qed

text \<open>
  Claim C6. For every bank and every requested size \<open>nq\<close>, the quiz selection
  is a sample of the bank that the draws of \<^verbatim>\<open>Math.random()\<close> determine: it has
  exactly \<open>min nq (length qas)\<close> questions; it reads the bank at the first
  \<open>min nq (length qas)\<close> positions of the shuffled list of positions, which are
  pairwise different positions of the bank; and every list of
  \<open>min nq (length qas)\<close> pairwise different positions of the bank is the one that
  some draws select. The draws are any binary64 numbers in \<open>[0, 1)\<close>; their
  distribution is left to the implementation of \<^verbatim>\<open>Math.random()\<close> and is not part
  of the statement.
\<close>

theorem pick_is_sample:
  assumes "random_ok rnd" and "length qas < 2 ^ 32"
  shows "length (pick rnd nq qas) = min nq (length qas)
     \<and> pick rnd nq qas
         = map (\<lambda>p. qas ! p) (take (min nq (length qas)) (shuffle rnd [0..<length qas]))
     \<and> distinct (take (min nq (length qas)) (shuffle rnd [0..<length qas]))
     \<and> set (take (min nq (length qas)) (shuffle rnd [0..<length qas])) \<subseteq> {..<length qas}
     \<and> (\<forall>ps. distinct ps \<and> set ps \<subseteq> {..<length qas} \<and> length ps = min nq (length qas)
            \<longrightarrow> (\<exists>rnd'. random_ok rnd' \<and> pick rnd' nq qas = map (\<lambda>p. qas ! p) ps))"
proof -
  define n where "n = length qas"
  define k where "k = min nq n"
  have n53: "n < 2 ^ 53" using assms(2) unfolding n_def by (rule two_pow_32_53)
  have pos: "shuffle r qas = map (\<lambda>p. qas ! p) (shuffle r [0..<n])" if "random_ok r" for r
    unfolding n_def using that n53 [unfolded n_def] by (rule shuffle_positions)
  have c1: "length (pick rnd nq qas) = k" by (simp add: length_pick k_def n_def)
  have c2: "pick rnd nq qas = map (\<lambda>p. qas ! p) (take k (shuffle rnd [0..<n]))"
    by (simp add: pick_def pos [OF assms(1)] take_map k_def n_def)
  have "mset (shuffle rnd [0..<n]) = mset [0..<n]"
    using assms(1) n53 by (intro shuffle_mset) simp_all
  then have d: "distinct (shuffle rnd [0..<n])" and s: "set (shuffle rnd [0..<n]) = {..<n}"
    using mset_eq_imp_distinct_iff [of "shuffle rnd [0..<n]" "[0..<n]"]
      mset_eq_setD [of "shuffle rnd [0..<n]" "[0..<n]"] by (simp_all add: lessThan_atLeast0)
  have c3: "distinct (take k (shuffle rnd [0..<n]))" using d by (rule distinct_take)
  have c4: "set (take k (shuffle rnd [0..<n])) \<subseteq> {..<n}"
    using set_take_subset [of k "shuffle rnd [0..<n]"] s by simp
  have c5: "\<exists>rnd'. random_ok rnd' \<and> pick rnd' nq qas = map (\<lambda>p. qas ! p) ps"
    if ps: "distinct ps" "set ps \<subseteq> {..<n}" "length ps = k" for ps
  proof -
    define t where "t = ps @ filter (\<lambda>p. p \<notin> set ps) [0..<n]"
    have "distinct t" using ps(1) by (auto simp add: t_def)
    moreover have "set t = set [0..<n]" using ps(2) by (auto simp add: t_def)
    ultimately have "mset t = mset [0..<n]"
      by (intro iffD1 [OF set_eq_iff_mset_eq_distinct]) simp_all
    then obtain r where r: "random_ok r" "shuffle r [0..<n] = t"
      using shuffle_onto [of t "[0..<n]"] assms(2) by (auto simp add: n_def)
    have "pick r nq qas = map (\<lambda>p. qas ! p) (take k t)"
      using r(2) by (simp add: pick_def pos [OF r(1)] take_map k_def n_def)
    also have "take k t = ps" using ps(3) by (simp add: t_def)
    finally show ?thesis using r(1) by blast
  qed
  show ?thesis using c1 c2 c3 c4 c5 unfolding k_def n_def by blast
qed

theorem pick_is_sample_witness:
  "random_ok (\<lambda>n. 1 / 2) \<and> length three_cards < 2 ^ 32
   \<and> length (pick (\<lambda>n. 1 / 2) 2 three_cards) = 2
   \<and> take (min 2 (length three_cards)) (shuffle (\<lambda>n. 1 / 2) [0..<length three_cards]) = [0, 2]
   \<and> pick (\<lambda>n. 1 / 2) 2 three_cards = [three_cards ! 0, three_cards ! 2]
   \<and> pick (\<lambda>n. 0) 2 three_cards = [three_cards ! 1, three_cards ! 2]
   \<and> pick (\<lambda>n. 1 / 2) 2 three_cards \<noteq> pick (\<lambda>n. 0) 2 three_cards
   \<and> (\<exists>rnd'. random_ok rnd' \<and> pick rnd' 2 three_cards = [three_cards ! 2, three_cards ! 1])"
proof -
  have len: "length three_cards = 3" by (simp add: three_cards_def)
  then have l32: "length three_cards < 2 ^ 32" by simp
  have ps: "take (min 2 (length three_cards)) (shuffle (\<lambda>n. 1 / 2) [0..<length three_cards])
      = [0, 2]"
    by code_simp
  have zero: "pick (\<lambda>n. 0) 2 three_cards = [three_cards ! 1, three_cards ! 2]" by code_simp
  have ne: "[three_cards ! 0, three_cards ! 2] \<noteq> [three_cards ! 1, three_cards ! 2]"
    by code_simp
  note m = pick_is_sample [OF random_ok_half l32, of 2]
  have c1: "length (pick (\<lambda>n. 1 / 2) 2 three_cards) = 2"
    using conjunct1 [OF m] len by simp
  have c2: "pick (\<lambda>n. 1 / 2) 2 three_cards = [three_cards ! 0, three_cards ! 2]"
    using conjunct1 [OF conjunct2 [OF m]] unfolding ps by simp
  have "distinct [2, 1 :: nat] \<and> set [2, 1 :: nat] \<subseteq> {..<length three_cards}
      \<and> length [2, 1 :: nat] = min 2 (length three_cards)"
    using len by simp
  then have "\<exists>rnd'. random_ok rnd'
      \<and> pick rnd' 2 three_cards = map (\<lambda>p. three_cards ! p) [2, 1]"
    using conjunct2 [OF conjunct2 [OF conjunct2 [OF conjunct2 [OF m]]]] by blast
  then have c3: "\<exists>rnd'. random_ok rnd'
      \<and> pick rnd' 2 three_cards = [three_cards ! 2, three_cards ! 1]"
    by simp
  show ?thesis using random_ok_half l32 c1 ps c2 zero ne c3 by simp
qed

end
